theory Spec2Isabelle
  imports Main "HOL-Library.Signed_Division"
begin

section \<open>Machine integers of \<^verbatim>\<open>prime_numbers.cpp\<close>\<close>

text \<open>
  The program computes with \<^verbatim>\<open>long long\<close> (64 bit, two's complement) and
  \<^verbatim>\<open>unsigned int\<close> (32 bit). Both are modelled as \<open>int\<close> with the wrap-around
  written out: \<open>ll\<close> reduces a mathematical result to the \<^verbatim>\<open>long long\<close> that a
  two's-complement machine stores, \<open>u32\<close> is the conversion to \<^verbatim>\<open>unsigned int\<close>
  and \<open>u64\<close> the conversion to \<^verbatim>\<open>size_t\<close>.
  Signed overflow is undefined behaviour in ISO C++; the model gives it the value that the
  64-bit hardware instruction produces.
  Division and remainder truncate towards zero (\<open>sdiv\<close>, \<open>smod\<close>).
\<close>

definition LLONG_MAX :: int where
  "LLONG_MAX = 9223372036854775807"

definition LLONG_MIN :: int where
  "LLONG_MIN = - 9223372036854775808"

definition UINT_MAX :: int where
  "UINT_MAX = 4294967295"

definition in_ll :: "int \<Rightarrow> bool" where
  "in_ll x = (LLONG_MIN \<le> x \<and> x \<le> LLONG_MAX)"

definition in_uint :: "int \<Rightarrow> bool" where
  "in_uint x = (0 \<le> x \<and> x \<le> UINT_MAX)"

definition ll :: "int \<Rightarrow> int" where
  "ll x = (x + 9223372036854775808) mod 18446744073709551616 - 9223372036854775808"

definition u32 :: "int \<Rightarrow> int" where
  "u32 x = x mod 4294967296"

definition u64 :: "int \<Rightarrow> int" where
  "u64 x = x mod 18446744073709551616"

section \<open>Primality oracle, lines 28 to 37\<close>

text \<open>
  \<^verbatim>\<open>
  static bool isPrime(long long n) {
      if (n < 2) return false;
      if (n == 2) return true;
      if (n % 2 == 0) return false;
      for (long long d = 3; d * d <= n; d += 2) {
          if (n % d == 0) return false;
      }
      return true;
  }
  \<close>
  The loop is a partial function: \<open>None\<close> stands for a loop that never returns.
  The product \<open>d * d\<close> and the increment \<open>d + 2\<close> are reduced by \<open>ll\<close>.
\<close>

partial_function (option) isPrime_loop :: "int \<Rightarrow> int \<Rightarrow> bool option" where
  "isPrime_loop n d =
     (if ll (d * d) \<le> n
      then (if n smod d = 0 then Some False else isPrime_loop n (ll (d + 2)))
      else Some True)"

definition isPrime :: "int \<Rightarrow> bool option" where
  "isPrime n =
     (if n < 2 then Some False
      else if n = 2 then Some True
      else if n smod 2 = 0 then Some False
      else isPrime_loop n 3)"

text \<open>
  The mathematical notion the oracle is compared with: \<open>n\<close> is prime when it is at
  least 2 and no number from 2 to \<open>n - 1\<close> divides it.
\<close>

definition is_prime :: "int \<Rightarrow> bool" where
  "is_prime n = (2 \<le> n \<and> (\<forall>d \<in> set [2..n - 1]. \<not> d dvd n))"

text \<open>The exact ascending list of the primes in \<open>[2, L]\<close>.\<close>

definition primes_upto :: "int \<Rightarrow> int list" where
  "primes_upto L = filter is_prime [2..L]"

section \<open>Text streams of the C++ standard library\<close>

text \<open>
  The program reads and writes numbers through \<^verbatim>\<open>std::istream\<close> and
  \<^verbatim>\<open>std::ostream\<close>. Their behaviour is fixed by the C++ standard (classic locale,
  decimal base, \<^verbatim>\<open>skipws\<close> set) and is written out here.
  A \<^verbatim>\<open>char\<close> is classified by its code: \<^verbatim>\<open>std::isdigit\<close> accepts
  \<^verbatim>\<open>'0'\<close> to \<^verbatim>\<open>'9'\<close>, \<^verbatim>\<open>std::isspace\<close> the blank and the
  codes 9 to 13.
\<close>

definition isdigit :: "char \<Rightarrow> bool" where
  "isdigit c = (48 \<le> (of_char c :: nat) \<and> (of_char c :: nat) \<le> 57)"

definition isspace :: "char \<Rightarrow> bool" where
  "isspace c = ((of_char c :: nat) = 32 \<or> (9 \<le> (of_char c :: nat) \<and> (of_char c :: nat) \<le> 13))"

definition digit_char :: "nat \<Rightarrow> char" where
  "digit_char k = ''0123456789'' ! k"

definition digit_val :: "char \<Rightarrow> nat" where
  "digit_val c = of_char c - 48"

text \<open>
  \<^verbatim>\<open>os << x\<close> for an integer: the decimal digits, most significant first, after
  a minus sign when \<open>x\<close> is negative.
\<close>

fun put_nat :: "nat \<Rightarrow> string" where
  "put_nat n = (if n < 10 then [digit_char n] else put_nat (n div 10) @ [digit_char (n mod 10)])"

declare put_nat.simps [simp del]

definition put_ll :: "int \<Rightarrow> string" where
  "put_ll x = (if x < 0 then CHR ''-'' # put_nat (nat (- x)) else put_nat (nat x))"

text \<open>
  An input stream is the text that is still unread and two state flags. The conversion
  \<^verbatim>\<open>is >> v\<close> to a \<^verbatim>\<open>long long\<close>: a stream that is not good fails at once;
  leading white space is skipped, and the end of the text there sets both flags; then an
  optional sign and the longest run of digits are consumed. No digit, or a value outside
  \<^verbatim>\<open>long long\<close>, sets \<open>failbit\<close> (the value stored is 0 or the nearest bound);
  reaching the end of the text sets \<open>eofbit\<close>.
\<close>

record istream =
  buf :: string
  failbit :: bool
  eofbit :: bool

definition open_stream :: "string \<Rightarrow> istream" where
  "open_stream content = \<lparr>buf = content, failbit = False, eofbit = False\<rparr>"

definition accumulate :: "string \<Rightarrow> nat" where
  "accumulate ds = foldl (\<lambda>a c. 10 * a + digit_val c) 0 ds"

definition extract_ll :: "istream \<Rightarrow> int \<Rightarrow> istream \<times> int" where
  "extract_ll s v =
     (if failbit s \<or> eofbit s then (s\<lparr>failbit := True\<rparr>, v)
      else
        let b1 = dropWhile isspace (buf s) in
        if b1 = [] then (\<lparr>buf = [], failbit = True, eofbit = True\<rparr>, v)
        else
          let neg = (hd b1 = CHR ''-'');
              b2 = (if hd b1 = CHR ''-'' \<or> hd b1 = CHR ''+'' then tl b1 else b1);
              ds = takeWhile isdigit b2;
              b3 = dropWhile isdigit b2;
              x = (if neg then - int (accumulate ds) else int (accumulate ds))
          in if ds = [] then (\<lparr>buf = b3, failbit = True, eofbit = (b3 = [])\<rparr>, 0)
             else if x > LLONG_MAX then (\<lparr>buf = b3, failbit = True, eofbit = (b3 = [])\<rparr>, LLONG_MAX)
             else if x < LLONG_MIN then (\<lparr>buf = b3, failbit = True, eofbit = (b3 = [])\<rparr>, LLONG_MIN)
             else (\<lparr>buf = b3, failbit = False, eofbit = (b3 = [])\<rparr>, x))"

text \<open>
  \<^verbatim>\<open>while (ifs >> v) all.emplace_back(v);\<close> (lines 183 to 185). A conversion that
  succeeds consumes at least one character, so the loop ends.
\<close>

lemma extract_ll_consumes:
  "extract_ll s v = (s', v') \<Longrightarrow> \<not> failbit s' \<Longrightarrow> length (buf s') < length (buf s)"
proof -
  assume e: "extract_ll s v = (s', v')" and ok: "\<not> failbit s'"
  define b1 where "b1 = dropWhile isspace (buf s)"
  define b2 where "b2 = (if hd b1 = CHR ''-'' \<or> hd b1 = CHR ''+'' then tl b1 else b1)"
  from e ok have g: "\<not> (failbit s \<or> eofbit s)" "b1 \<noteq> []" "takeWhile isdigit b2 \<noteq> []"
    and b: "buf s' = dropWhile isdigit b2"
    by (auto simp: extract_ll_def Let_def b1_def b2_def split: if_splits)
  have "length (takeWhile isdigit b2) + length (dropWhile isdigit b2) = length b2"
    by (metis length_append takeWhile_dropWhile_id)
  with g(3) have "length (dropWhile isdigit b2) < length b2"
    by (cases "takeWhile isdigit b2") auto
  moreover have "length b2 \<le> length b1" by (simp add: b2_def)
  moreover have "length b1 \<le> length (buf s)" by (simp add: b1_def length_dropWhile_le)
  ultimately show ?thesis using b by simp
qed

function read_loop :: "istream \<Rightarrow> int \<Rightarrow> int list \<Rightarrow> int list" where
  "read_loop ifs v all =
     (let (ifs', v') = extract_ll ifs v
      in if failbit ifs' then all else read_loop ifs' v' (all @ [v']))"
  by pat_completeness auto
termination
  by (relation "measure (\<lambda>(ifs, v, all). length (buf ifs))") (auto dest: extract_ll_consumes [OF sym])

declare read_loop.simps [simp del]

section \<open>Limit parser, lines 87 to 97\<close>

text \<open>
  \<^verbatim>\<open>
  static bool parseLimit(const char* s, long long& out) {
      std::string str(s);
      if (str.empty()) return false;
      for (char c : str) if (!std::isdigit(static_cast<unsigned char>(c))) return false;
      std::istringstream iss(str);
      long long v;
      iss >> v;
      if (!iss || !iss.eof()) return false;
      out = v;
      return true;
  }
  \<close>
  The result \<open>None\<close> is the return value \<^verbatim>\<open>false\<close>, \<open>Some v\<close> is
  \<^verbatim>\<open>true\<close> with \<open>v\<close> stored in \<^verbatim>\<open>out\<close>.
\<close>

definition parseLimit :: "string \<Rightarrow> int option" where
  "parseLimit str =
     (if str = [] then None
      else if \<not> list_all isdigit str then None
      else
        let (iss, v) = extract_ll (open_stream str) 0
        in if failbit iss \<or> \<not> eofbit iss then None else Some v)"

text \<open>
  The number that a string of decimal digits denotes: the digit at position \<open>i\<close>
  counts with the power of ten of its place.
\<close>

definition numeric_value :: "string \<Rightarrow> nat" where
  "numeric_value s = sum_list (map (\<lambda>i. digit_val (s ! i) * 10 ^ (length s - Suc i)) [0..<length s])"

section \<open>Thread count, lines 114 to 119 of \<^verbatim>\<open>main\<close>\<close>

text \<open>
  \<^verbatim>\<open>
  unsigned int hw = std::thread::hardware_concurrency();
  if (hw == 0) hw = 2;
  unsigned int numThreads = static_cast<unsigned int>(
      std::min<long long>(hw, std::max<long long>(1, limit)));
  if (limit < 2) numThreads = 1;
  \<close>
  The value reported by the hardware is a parameter \<open>hw0\<close> of the model.
\<close>

definition hw_of :: "int \<Rightarrow> int" where
  "hw_of hw0 = (if hw0 = 0 then 2 else hw0)"

definition numThreads_of :: "int \<Rightarrow> int \<Rightarrow> int" where
  "numThreads_of hw0 limit =
     (let hw = hw_of hw0;
          numThreads = u32 (min hw (max 1 limit))
      in if limit < 2 then 1 else numThreads)"

section \<open>Partition planner, lines 126 to 140 of \<^verbatim>\<open>main\<close>\<close>

record Range =
  start :: int
  end' :: int

text \<open>The lambda \<^verbatim>\<open>ceil_div\<close>: \<^verbatim>\<open>(a + b - 1) / b\<close>, evaluated left to right.\<close>

definition ceil_div :: "int \<Rightarrow> int \<Rightarrow> int" where
  "ceil_div a b = ll (ll (ll (a + b) - 1) sdiv b)"

definition block_of :: "int \<Rightarrow> int \<Rightarrow> int" where
  "block_of limit numThreads = (if numThreads > 0 then ceil_div limit numThreads else limit)"

text \<open>
  The body of the planning loop for worker index \<open>i\<close>. The index is an
  \<^verbatim>\<open>unsigned int\<close> that is converted to \<^verbatim>\<open>long long\<close> before it is multiplied.
\<close>

definition plan_range :: "int \<Rightarrow> int \<Rightarrow> nat \<Rightarrow> Range" where
  "plan_range limit block i =
     (let start0 = ll (ll (int i * block) + 1);
          end0 = min limit (ll (ll (int i + 1) * block))
      in if start0 > end0 then \<lparr>start = 1, end' = 0\<rparr>
         else \<lparr>start = start0, end' = end0\<rparr>)"

definition ranges_of :: "int \<Rightarrow> int \<Rightarrow> Range list" where
  "ranges_of limit numThreads =
     map (plan_range limit (block_of limit numThreads)) [0..<nat numThreads]"

text \<open>The numbers of a range, ascending; none when \<open>start\<close> exceeds \<open>end\<close>.\<close>

definition range_list :: "Range \<Rightarrow> int list" where
  "range_list r = [start r..end' r]"

section \<open>Worker, lines 53 to 79\<close>

text \<open>
  The file system is a map from file names to contents. Whether a file can be opened for
  writing or for reading is decided by the environment: the predicates \<open>can_write\<close>
  and \<open>can_read\<close> are parameters, as are the memory (\<open>reserve_ok\<close>) and the room
  on the disk (\<open>disk_room\<close>).
\<close>

type_synonym files = "string \<Rightarrow> string option"

text \<open>
  \<^verbatim>\<open>
  localOut.clear();
  localOut.reserve((range.end >= range.start)
      ? static_cast<size_t>(range.end - range.start + 1) : 0);
  \<close>
  The count is computed in \<^verbatim>\<open>long long\<close> and converted to \<^verbatim>\<open>size_t\<close>.
  \<^verbatim>\<open>reserve(n)\<close> on the empty vector does nothing for \<open>n = 0\<close>; otherwise it
  throws \<^verbatim>\<open>std::length_error\<close> when \<open>n\<close> exceeds \<^verbatim>\<open>max_size()\<close> and
  \<^verbatim>\<open>std::bad_alloc\<close> when the memory is not available. Whether it returns is decided
  by the environment: \<open>reserve_ok n\<close> is a parameter. An exception that leaves the
  function of a \<^verbatim>\<open>std::thread\<close> ends the process (\<^verbatim>\<open>std::terminate\<close>):
  the outcome \<open>Terminated\<close>.
\<close>

datatype 'a outcome = Terminated | Returned 'a

definition reserve_count :: "Range \<Rightarrow> nat" where
  "reserve_count range' =
     (if end' range' \<ge> start range'
      then nat (u64 (ll (ll (end' range' - start range') + 1)))
      else 0)"

text \<open>
  \<^verbatim>\<open>
  for (long long x = range.start; x <= range.end; ++x) {
      if (isPrime(x)) localOut.emplace_back(x);
  }
  \<close>
  The increment \<^verbatim>\<open>++x\<close> is reduced by \<open>ll\<close>; the loop may not return.
  For a range with \<open>1 \<le> start\<close>, as every planned range is, the reserved capacity
  holds the whole range (\<open>reserve_count_exact\<close>), and \<^verbatim>\<open>emplace_back\<close> allocates
  nothing while the counter stays inside the range. An allocation of
  \<^verbatim>\<open>emplace_back\<close> beyond the reserved capacity, which is reached only after the
  counter has left the range, is taken to succeed.
\<close>

partial_function (option) worker_loop :: "int \<Rightarrow> int \<Rightarrow> int list \<Rightarrow> int list option" where
  "worker_loop range_end x localOut =
     (if x \<le> range_end
      then (case isPrime x of
              None \<Rightarrow> None
            | Some p \<Rightarrow> worker_loop range_end (ll (x + 1)) (if p then localOut @ [x] else localOut))
      else Some localOut)"

text \<open>
  \<^verbatim>\<open>
  for (size_t i = 0; i < localOut.size(); ++i)
      ofs << localOut[i] << (i + 1 == localOut.size() ? "" : " ");
  ofs << "\n";
  \<close>
\<close>

function write_loop :: "int list \<Rightarrow> nat \<Rightarrow> string \<Rightarrow> string" where
  "write_loop localOut i ofs =
     (if i < length localOut
      then write_loop localOut (i + 1)
             (ofs @ put_ll (localOut ! i) @ (if i + 1 = length localOut then [] else [CHR '' '']))
      else ofs)"
  by pat_completeness auto
termination
  by (relation "measure (\<lambda>(localOut, i, ofs). length localOut - i)") auto

declare write_loop.simps [simp del]

definition serialize :: "int list \<Rightarrow> string" where
  "serialize localOut = write_loop localOut 0 [] @ [CHR 0x0A]"

text \<open>
  The format the file is meant to have: the decimal numbers, one blank between two
  neighbours.
\<close>

fun space_separated :: "int list \<Rightarrow> string" where
  "space_separated [] = []"
| "space_separated [x] = put_ll x"
| "space_separated (x # y # ys) = put_ll x @ CHR '' '' # space_separated (y # ys)"

text \<open>
  \<^verbatim>\<open>
  std::ofstream ofs(fileName);
  if (ofs) { ... write loop ... ofs << "\n"; } else { ... warning ... }
  \<close>
  The stream is tested once, after it was opened; no write is tested. A file that
  opened is emptied and receives the text as far as the file system takes it:
  \<open>disk_room fileName\<close> characters at most, a parameter of the environment. A file
  that did not open is left as it was (the warning on \<^verbatim>\<open>std::cerr\<close> is not
  modelled). The worker returns its local vector and the file system.
\<close>

definition workerTask ::
  "(nat \<Rightarrow> bool) \<Rightarrow> (string \<Rightarrow> bool) \<Rightarrow> (string \<Rightarrow> nat) \<Rightarrow> nat \<Rightarrow> Range \<Rightarrow> string \<Rightarrow> files
     \<Rightarrow> (int list \<times> files) outcome option" where
  "workerTask reserve_ok can_write disk_room workerId range' fileName fs =
     (if 0 < reserve_count range' \<and> \<not> reserve_ok (reserve_count range') then Some Terminated
      else case worker_loop (end' range') (start range') [] of
        None \<Rightarrow> None
      | Some localOut \<Rightarrow>
          Some (Returned (localOut,
                if can_write fileName
                then fs(fileName \<mapsto> take (disk_room fileName) (serialize localOut))
                else fs)))"

section \<open>Final ordering, lines 194 and 195 of \<^verbatim>\<open>main\<close>\<close>

text \<open>
  \<^verbatim>\<open>std::sort(all.begin(), all.end());\<close> followed by
  \<^verbatim>\<open>all.erase(std::unique(all.begin(), all.end()), all.end());\<close>:
  ascending sort, then one element kept of every run of equal neighbours.
\<close>

definition finalize :: "int list \<Rightarrow> int list" where
  "finalize all = remdups_adj (sort all)"

section \<open>The pipeline of \<^verbatim>\<open>main\<close>, lines 142 to 195\<close>

text \<open>
  The threads share no state: worker \<open>i\<close> writes only \<^verbatim>\<open>locals[i]\<close> and the
  file \<^verbatim>\<open>tempFiles[i]\<close>, and \<^verbatim>\<open>main\<close> waits for all of them. The model runs
  them one after the other, in index order. A worker that never returns blocks the join,
  and an exception in any worker ends the process, also while another worker is still
  running.
  The worker count is a parameter of \<open>pipeline\<close>; \<open>main\<close> supplies the count
  it computes.
\<close>

definition tempFile_name :: "nat \<Rightarrow> string" where
  "tempFile_name i = ''primes_thread_'' @ put_nat (nat (u32 (int i + 1))) @ ''.txt''"

definition tempFiles_of :: "int \<Rightarrow> string list" where
  "tempFiles_of numThreads = map tempFile_name [0..<nat numThreads]"

function run_workers ::
  "(nat \<Rightarrow> bool) \<Rightarrow> (string \<Rightarrow> bool) \<Rightarrow> (string \<Rightarrow> nat) \<Rightarrow> Range list \<Rightarrow> string list \<Rightarrow> nat \<Rightarrow> nat
     \<Rightarrow> int list list \<Rightarrow> files \<Rightarrow> (int list list \<times> files) outcome option" where
  "run_workers reserve_ok can_write disk_room ranges tempFiles numThreads i locals fs =
     (if i < numThreads
      then (case workerTask reserve_ok can_write disk_room i (ranges ! i) (tempFiles ! i) fs of
              Some Terminated \<Rightarrow> Some Terminated
            | None \<Rightarrow>
                (case run_workers reserve_ok can_write disk_room ranges tempFiles numThreads (i + 1)
                        locals fs of
                   Some Terminated \<Rightarrow> Some Terminated
                 | _ \<Rightarrow> None)
            | Some (Returned (localOut, fs')) \<Rightarrow>
                run_workers reserve_ok can_write disk_room ranges tempFiles numThreads (i + 1)
                  (locals[i := localOut]) fs')
      else Some (Returned (locals, fs)))"
  by pat_completeness auto
termination
  by (relation "measure (\<lambda>(ro, cw, dr, ranges, tempFiles, numThreads, i, locals, fs). numThreads - i)")
    auto

declare run_workers.simps [simp del]

text \<open>
  \<^verbatim>\<open>std::ifstream ifs(tempFiles[i]);\<close> opens when the file exists and can be read.
  The merge loop (lines 176 to 192) reads every number of a file that opened
  (\<^verbatim>\<open>gotFromFile\<close>) and appends \<^verbatim>\<open>locals[i]\<close> otherwise.
\<close>

definition open_in :: "(string \<Rightarrow> bool) \<Rightarrow> files \<Rightarrow> string \<Rightarrow> string option" where
  "open_in can_read fs name = (if can_read name then fs name else None)"

function merge_loop ::
  "(string \<Rightarrow> string option) \<Rightarrow> string list \<Rightarrow> int list list \<Rightarrow> nat \<Rightarrow> nat \<Rightarrow> int list
     \<Rightarrow> int list" where
  "merge_loop ifstream tempFiles locals numThreads i all =
     (if i < numThreads
      then (case ifstream (tempFiles ! i) of
              Some content \<Rightarrow>
                merge_loop ifstream tempFiles locals numThreads (i + 1)
                  (read_loop (open_stream content) 0 all)
            | None \<Rightarrow>
                merge_loop ifstream tempFiles locals numThreads (i + 1) (all @ locals ! i))
      else all)"
  by pat_completeness auto
termination
  by (relation "measure (\<lambda>(ifstream, tempFiles, locals, numThreads, i, all). numThreads - i)") auto

declare merge_loop.simps [simp del]

text \<open>
  What worker \<open>i\<close> contributes to the accumulator: the numbers read from its file
  when the file opens, its local vector otherwise.
\<close>

definition worker_source :: "(string \<Rightarrow> string option) \<Rightarrow> string list \<Rightarrow> int list list \<Rightarrow> nat \<Rightarrow> int list" where
  "worker_source ifstream tempFiles locals i =
     (case ifstream (tempFiles ! i) of
        Some content \<Rightarrow> read_loop (open_stream content) 0 []
      | None \<Rightarrow> locals ! i)"

definition pipeline ::
  "int \<Rightarrow> int \<Rightarrow> (nat \<Rightarrow> bool) \<Rightarrow> (string \<Rightarrow> bool) \<Rightarrow> (string \<Rightarrow> nat) \<Rightarrow> (string \<Rightarrow> bool) \<Rightarrow> files
     \<Rightarrow> (int list \<times> files) outcome option" where
  "pipeline limit numThreads reserve_ok can_write disk_room can_read fs =
     (let ranges = ranges_of limit numThreads;
          tempFiles = tempFiles_of numThreads
      in case run_workers reserve_ok can_write disk_room ranges tempFiles (nat numThreads) 0
                (replicate (nat numThreads) []) fs of
           None \<Rightarrow> None
         | Some Terminated \<Rightarrow> Some Terminated
         | Some (Returned (locals, fs')) \<Rightarrow>
             Some (Returned
               (finalize (merge_loop (open_in can_read fs') tempFiles locals (nat numThreads) 0 []),
                fs')))"

text \<open>
  \<^verbatim>\<open>main\<close> returns 1 after a usage error or a rejected limit, before anything else
  runs; otherwise the result is the final vector \<^verbatim>\<open>all\<close>, which is printed.
  \<open>argv\<close> holds the program name and the arguments; \<open>hw0\<close> is the value of
  \<^verbatim>\<open>std::thread::hardware_concurrency()\<close>. The result \<open>None\<close> is a run that
  never ends, \<open>Some Terminated\<close> a process ended by an exception of a worker, and
  \<open>Some (Returned (r, fs))\<close> a return of \<^verbatim>\<open>main\<close> with the file system
  \<open>fs\<close> left behind.
\<close>

datatype exit_error = Usage | BadLimit

definition main ::
  "string list \<Rightarrow> int \<Rightarrow> (nat \<Rightarrow> bool) \<Rightarrow> (string \<Rightarrow> bool) \<Rightarrow> (string \<Rightarrow> nat) \<Rightarrow> (string \<Rightarrow> bool) \<Rightarrow> files
     \<Rightarrow> ((exit_error + int list) \<times> files) outcome option" where
  "main argv hw0 reserve_ok can_write disk_room can_read fs =
     (if length argv \<noteq> 2 then Some (Returned (Inl Usage, fs))
      else case parseLimit (argv ! 1) of
             None \<Rightarrow> Some (Returned (Inl BadLimit, fs))
           | Some limit \<Rightarrow>
               (case pipeline limit (numThreads_of hw0 limit) reserve_ok can_write disk_room
                       can_read fs of
                  None \<Rightarrow> None
                | Some Terminated \<Rightarrow> Some Terminated
                | Some (Returned (all, fs')) \<Rightarrow> Some (Returned (Inr all, fs'))))"

section \<open>Properties\<close>

lemma ll_id: "in_ll x \<Longrightarrow> ll x = x"
  by (simp add: in_ll_def ll_def LLONG_MIN_def LLONG_MAX_def)


lemma distinct_remdups_adj_sorted: "sorted xs \<Longrightarrow> distinct (remdups_adj (xs :: int list))"
  by (induction xs rule: remdups_adj.induct) (auto split: if_split_asm)

lemma numThreads_of_bounds:
  assumes "in_uint hw0"
  shows "1 \<le> numThreads_of hw0 limit" and "numThreads_of hw0 limit \<le> UINT_MAX"
proof -
  let ?m = "min (hw_of hw0) (max 1 limit)"
  have hw: "1 \<le> hw_of hw0" "hw_of hw0 \<le> UINT_MAX"
    using assms by (auto simp: hw_of_def in_uint_def UINT_MAX_def)
  then have m: "1 \<le> ?m" "?m \<le> 4294967295"
    by (auto simp: UINT_MAX_def)
  then have "u32 ?m = ?m"
    by (simp add: u32_def)
  with m show "1 \<le> numThreads_of hw0 limit" and "numThreads_of hw0 limit \<le> UINT_MAX"
    by (auto simp: numThreads_of_def Let_def UINT_MAX_def)
qed

subsection \<open>The primality oracle\<close>

lemma smod_zero_iff: "0 \<le> n \<Longrightarrow> 0 < d \<Longrightarrow> (n smod d = 0) = (d dvd (n::int))"
  by (cases "n = 0") (auto simp: signed_modulo_int_def sgn_if mod_eq_0_iff_dvd)

lemma is_prime_iff: "is_prime n = (2 \<le> n \<and> (\<forall>d. 2 \<le> d \<and> d < n \<longrightarrow> \<not> d dvd n))"
  by (auto simp: is_prime_def)

lemma square_le: "0 \<le> a \<Longrightarrow> a \<le> b \<Longrightarrow> a * a \<le> b * (b::int)"
  by (rule mult_mono) auto

lemma loop_false:
  assumes "in_ll n" "odd p" "p * p \<le> n" "p dvd n"
  shows "3 \<le> d \<Longrightarrow> odd d \<Longrightarrow> d \<le> p \<Longrightarrow> isPrime_loop n d = Some False"
proof (induction "nat (p - d)" arbitrary: d rule: less_induct)
  case less
  have n: "n \<le> LLONG_MAX" using assms(1) by (simp add: in_ll_def)
  have dd: "d * d \<le> p * p" using less.prems by (intro square_le) auto
  have "in_ll (d * d)"
    unfolding in_ll_def LLONG_MIN_def using dd assms(3) n zero_le_square [of d] by linarith
  then have c: "ll (d * d) \<le> n" using dd assms(3) by (simp add: ll_id)
  have n0: "0 \<le> n" using assms(3) zero_le_square [of p] by linarith
  show ?case
  proof (cases "d dvd n")
    case True
    with c n0 less.prems show ?thesis
      by (subst isPrime_loop.simps) (simp add: smod_zero_iff)
  next
    case False
    with assms(4) have "d \<noteq> p" by auto
    with less.prems assms(2) have lt: "d + 2 \<le> p" by presburger
    have "p * 1 \<le> p * p" using less.prems by (intro mult_left_mono) auto
    then have "p \<le> p * p" by simp
    with lt assms(3) n less.prems have "in_ll (d + 2)"
      unfolding in_ll_def LLONG_MIN_def by linarith
    then have s: "ll (d + 2) = d + 2" by (rule ll_id)
    have "isPrime_loop n (d + 2) = Some False"
      using less.prems lt by (intro less.hyps) auto
    with c n0 False less.prems s show ?thesis
      by (subst isPrime_loop.simps) (simp add: smod_zero_iff)
  qed
qed

lemma loop_true:
  assumes "in_ll n" "odd w" "w \<le> n" "n < ll (w * w)"
    and nd: "\<And>k. 3 \<le> k \<Longrightarrow> k < w \<Longrightarrow> \<not> k dvd n"
  shows "3 \<le> d \<Longrightarrow> odd d \<Longrightarrow> d \<le> w \<Longrightarrow> isPrime_loop n d = Some True"
proof (induction "nat (w - d)" arbitrary: d rule: less_induct)
  case less
  show ?case
  proof (cases "ll (d * d) \<le> n")
    case False
    then show ?thesis by (subst isPrime_loop.simps) simp
  next
    case True
    with assms(4) have "d \<noteq> w" by auto
    with less.prems assms(2) have lt: "d + 2 \<le> w" by presburger
    with assms(1,3) less.prems have "in_ll (d + 2)"
      by (simp add: in_ll_def LLONG_MIN_def)
    then have s: "ll (d + 2) = d + 2" by (rule ll_id)
    have n0: "0 \<le> n" using assms(3) less.prems by linarith
    have "\<not> d dvd n" using lt less.prems by (intro nd) auto
    moreover have "isPrime_loop n (d + 2) = Some True"
      using less.prems lt by (intro less.hyps) auto
    ultimately show ?thesis
      using True n0 less.prems s by (subst isPrime_loop.simps) (simp add: smod_zero_iff)
  qed
qed

lemma top_not_prime:
  assumes "9223372036854775800 < n" "n \<le> 9223372036854775807" "odd n"
  shows "\<not> is_prime n"
proof -
  from assms(3) obtain k where k: "n = 2 * k + 1" by (rule oddE)
  with assms(1,2) have "4611686018427387900 \<le> k" "k \<le> 4611686018427387903" by auto
  then have "k = 4611686018427387900 \<or> k = 4611686018427387901
      \<or> k = 4611686018427387902 \<or> k = 4611686018427387903" by arith
  with k have "n = 9223372036854775801 \<or> n = 9223372036854775803
      \<or> n = 9223372036854775805 \<or> n = 9223372036854775807"
    by auto
  moreover have "(157::int) dvd 9223372036854775801" by simp
  moreover have "(3::int) dvd 9223372036854775803" by simp
  moreover have "(5::int) dvd 9223372036854775805" by simp
  moreover have "(7::int) dvd 9223372036854775807" by simp
  ultimately have "\<exists>d. 2 \<le> d \<and> d < n \<and> d dvd n"
    by (elim disjE) (rule exI [of _ 157], simp, rule exI [of _ 3], simp,
      rule exI [of _ 5], simp, rule exI [of _ 7], simp)
  then show ?thesis by (auto simp: is_prime_iff)
qed

lemma prime_witness:
  assumes "in_ll n" "3 \<le> n" "odd n" "is_prime n"
  shows "\<exists>w. odd w \<and> 3 \<le> w \<and> w \<le> n \<and> n < ll (w * w)"
proof -
  consider (A) "n \<le> 3037000499" | (B) "3037000499 < n" "n < 9223372030926249001"
    | (C) "9223372030926249001 \<le> n" "n \<le> 9223372036854775800"
    | (D) "9223372036854775800 < n" by linarith
  then show ?thesis
  proof cases
    case A
    have "n * n \<le> 3037000499 * 3037000499" using A assms(2) by (intro square_le) auto
    then have "n * n \<le> 9223372030926249001" by simp
    then have "in_ll (n * n)"
      unfolding in_ll_def LLONG_MIN_def LLONG_MAX_def using zero_le_square [of n] by linarith
    then have "ll (n * n) = n * n" by (rule ll_id)
    moreover have "n < n * n" using assms(2) by simp
    ultimately show ?thesis using assms by auto
  next
    case B
    have "ll (3037000499 * 3037000499) = 9223372030926249001" by (simp add: ll_def)
    with B show ?thesis by (intro exI [of _ 3037000499]) simp
  next
    case C
    have "ll (2759374635167858507 * 2759374635167858507) = 9223372036854775801"
      by (simp add: ll_def)
    with C show ?thesis by (intro exI [of _ 2759374635167858507]) simp
  next
    case D
    with assms have False using top_not_prime [of n] by (simp add: in_ll_def LLONG_MAX_def)
    then show ?thesis ..
  qed
qed

lemma isPrime_loop_exit_by_wrap:
  "isPrime_loop 9223372036854775783 2759374635167858507 = Some True"
  by (subst isPrime_loop.simps) (simp add: ll_def)

lemma odd_factor:
  assumes "3 \<le> n" "odd n" "\<not> is_prime n"
  shows "\<exists>p. odd p \<and> 3 \<le> p \<and> p * p \<le> n \<and> p dvd (n::int)"
proof -
  from assms obtain d where d: "2 \<le> d" "d < n" "d dvd n" by (auto simp: is_prime_iff)
  then obtain q where q: "n = d * q" by (auto simp: dvd_def)
  have q2: "2 \<le> q"
  proof (rule ccontr)
    assume "\<not> 2 \<le> q"
    then have "d * q \<le> d * 1" using d(1) by (intro mult_left_mono) auto
    with q d(2) show False by simp
  qed
  define p where "p = min d q"
  have pd: "p dvd n" using q by (auto simp: p_def min_def)
  with assms(2) have "odd p" by (meson dvd_trans)
  moreover have "2 \<le> p" using d q2 by (simp add: p_def)
  ultimately have p3: "3 \<le> p" by presburger
  have "p * p \<le> d * q" unfolding p_def using d q2 by (intro mult_mono) auto
  with q \<open>odd p\<close> p3 pd show ?thesis by auto
qed

lemma is_prime_odd_iff:
  assumes "3 \<le> n" "odd n"
  shows "is_prime n = (\<not> (\<exists>d. 3 \<le> d \<and> odd d \<and> d * d \<le> n \<and> d dvd n))"
proof
  assume p: "is_prime n"
  show "\<not> (\<exists>d. 3 \<le> d \<and> odd d \<and> d * d \<le> n \<and> d dvd n)"
  proof
    assume "\<exists>d. 3 \<le> d \<and> odd d \<and> d * d \<le> n \<and> d dvd n"
    then obtain d where d: "3 \<le> d" "d * d \<le> n" "d dvd n" by auto
    have "d < d * d" using d(1) by simp
    with d(2) have "d < n" by linarith
    with d p show False by (auto simp: is_prime_iff)
  qed
next
  assume "\<not> (\<exists>d. 3 \<le> d \<and> odd d \<and> d * d \<le> n \<and> d dvd n)"
  with odd_factor [OF assms] show "is_prime n" by blast
qed

lemma isPrime_loop_correct:
  assumes "in_ll n" "3 \<le> n" "odd n"
  shows "isPrime_loop n 3 = Some (is_prime n)"
proof (cases "is_prime n")
  case True
  from prime_witness [OF assms True] obtain w
    where w: "odd w" "3 \<le> w" "w \<le> n" "n < ll (w * w)" by auto
  have "isPrime_loop n 3 = Some True"
  proof (rule loop_true [OF assms(1) w(1) w(3) w(4)])
    fix k :: int assume "3 \<le> k" "k < w"
    with w(3) True show "\<not> k dvd n" by (auto simp: is_prime_iff)
  qed (use w in auto)
  with True show ?thesis by simp
next
  case False
  from odd_factor [OF assms(2,3) False] obtain p
    where p: "odd p" "3 \<le> p" "p * p \<le> n" "p dvd n" by auto
  have "isPrime_loop n 3 = Some False"
    by (rule loop_false [OF assms(1) p(1) p(3) p(4)]) (use p in auto)
  with False show ?thesis by simp
qed

lemma isPrime_is_prime: "in_ll n \<Longrightarrow> isPrime n = Some (is_prime n)"
proof -
  assume r: "in_ll n"
  consider (a) "n < 2" | (b) "n = 2" | (c) "2 < n" "even n" | (d) "3 \<le> n" "odd n"
    by atomize_elim auto
  then show ?thesis
  proof cases
    case a then show ?thesis by (simp add: isPrime_def is_prime_iff)
  next
    case b then show ?thesis by (simp add: isPrime_def is_prime_def)
  next
    case c
    then have "\<not> is_prime n" by (auto simp: is_prime_iff)
    with c show ?thesis by (simp add: isPrime_def smod_zero_iff)
  next
    case d
    with r show ?thesis by (simp add: isPrime_def smod_zero_iff isPrime_loop_correct)
  qed
qed

text \<open>
  Claim C2. For every \<^verbatim>\<open>long long\<close> \<open>n\<close> the oracle returns, and it returns
  false below 2, true at 2, false for every other even number, and for an odd number from
  3 on false exactly when an odd \<open>d\<close> with \<open>3 \<le> d\<close> and \<open>d * d \<le> n\<close> divides
  \<open>n\<close>; so its result is true exactly when \<open>n\<close> is prime. For a prime above
  \<open>3037000499\<^sup>2\<close> the product \<open>d * d\<close> leaves the 64-bit range before the loop ends;
  reduced to 64 bits it exceeds \<open>n\<close> at some odd \<open>d\<close> below \<open>n\<close>, and the loop
  returns true there.
\<close>

theorem isPrime_correct:
  "in_ll n \<Longrightarrow>
     (n < 2 \<longrightarrow> isPrime n = Some False)
   \<and> (n = 2 \<longrightarrow> isPrime n = Some True)
   \<and> (even n \<and> n \<noteq> 2 \<longrightarrow> isPrime n = Some False)
   \<and> (3 \<le> n \<and> odd n \<longrightarrow>
        isPrime n = Some (\<not> (\<exists>d. 3 \<le> d \<and> odd d \<and> d * d \<le> n \<and> d dvd n)))
   \<and> isPrime n = Some (is_prime n)"
proof -
  assume r: "in_ll n"
  have p: "isPrime n = Some (is_prime n)"
    using r by (rule isPrime_is_prime)
  have a: "n < 2 \<longrightarrow> isPrime n = Some False"
    by (simp add: isPrime_def)
  have b: "n = 2 \<longrightarrow> isPrime n = Some True"
    by (simp add: isPrime_def)
  have c: "even n \<and> n \<noteq> 2 \<longrightarrow> isPrime n = Some False"
  proof
    assume e: "even n \<and> n \<noteq> 2"
    show "isPrime n = Some False"
    proof (cases "n < 2")
      case True
      then show ?thesis by (simp add: isPrime_def)
    next
      case False
      with e show ?thesis by (simp add: isPrime_def smod_zero_iff)
    qed
  qed
  have d: "3 \<le> n \<and> odd n \<longrightarrow>
      isPrime n = Some (\<not> (\<exists>d. 3 \<le> d \<and> odd d \<and> d * d \<le> n \<and> d dvd n))"
    using p by (auto simp: is_prime_odd_iff)
  from a b c d p show ?thesis by blast
qed

theorem isPrime_correct_witness:
  "in_ll 1 \<and> in_ll 2 \<and> in_ll 10 \<and> in_ll 91 \<and> in_ll 97
   \<and> isPrime 1 = Some False \<and> isPrime 2 = Some True \<and> isPrime 10 = Some False
   \<and> isPrime 91 = Some False \<and> isPrime 97 = Some True \<and> is_prime 97 \<and> 7 * 7 \<le> (91::int)
   \<and> (7::int) dvd 91"
proof -
  have r: "in_ll 1" "in_ll 2" "in_ll 10" "in_ll 91" "in_ll 97"
    by (simp_all add: in_ll_def LLONG_MIN_def LLONG_MAX_def)
  have p: "is_prime 97" "\<not> is_prime 91"
    by (simp_all add: is_prime_def)
  have e1: "isPrime 1 = Some False"
    using isPrime_correct [OF r(1)] by simp
  have e2: "isPrime 2 = Some True"
    using isPrime_correct [OF r(2)] by simp
  have e10: "isPrime 10 = Some False"
    using isPrime_correct [OF r(3)] by simp
  have "isPrime 91 = Some (is_prime 91)"
    using isPrime_correct [OF r(4)] by (elim conjE)
  with p have e91: "isPrime 91 = Some False"
    by simp
  have "isPrime 97 = Some (is_prime 97)"
    using isPrime_correct [OF r(5)] by (elim conjE)
  with p have e97: "isPrime 97 = Some True"
    by simp
  from r p e1 e2 e10 e91 e97 show ?thesis
    by simp
qed

subsection \<open>Thread count and final ordering\<close>

text \<open>
  Claim C10. For every limit and every value that the hardware query can report (an
  \<^verbatim>\<open>unsigned int\<close>, with 0 replaced by 2), the worker count is at least 1. Hence the
  block size is computed by \<open>ceil_div\<close> with a divisor that is not zero (the other
  branch of the guard is never taken), and the vector of ranges, the vector of per-worker
  results and the vector of file names, all of that length, are not empty.
\<close>

theorem numThreads_positive:
  "in_uint hw0 \<Longrightarrow>
     1 \<le> numThreads_of hw0 limit
   \<and> numThreads_of hw0 limit \<noteq> 0
   \<and> block_of limit (numThreads_of hw0 limit) = ceil_div limit (numThreads_of hw0 limit)
   \<and> int (length (ranges_of limit (numThreads_of hw0 limit))) = numThreads_of hw0 limit
   \<and> ranges_of limit (numThreads_of hw0 limit) \<noteq> []
   \<and> replicate (nat (numThreads_of hw0 limit)) ([] :: int list) \<noteq> []
   \<and> tempFiles_of (numThreads_of hw0 limit) \<noteq> []"
proof -
  assume a: "in_uint hw0"
  have p: "1 \<le> numThreads_of hw0 limit"
    using a by (rule numThreads_of_bounds)
  then have len: "int (length (ranges_of limit (numThreads_of hw0 limit))) = numThreads_of hw0 limit"
    by (simp add: ranges_of_def)
  from p len have ne: "ranges_of limit (numThreads_of hw0 limit) \<noteq> []"
    by auto
  from p have nz: "numThreads_of hw0 limit \<noteq> 0"
    by simp
  from p have b: "block_of limit (numThreads_of hw0 limit) = ceil_div limit (numThreads_of hw0 limit)"
    by (simp add: block_of_def)
  from p have pos: "0 < nat (numThreads_of hw0 limit)"
    by simp
  then have lo: "replicate (nat (numThreads_of hw0 limit)) ([] :: int list) \<noteq> []"
    by simp
  from pos have tf: "tempFiles_of (numThreads_of hw0 limit) \<noteq> []"
    by (simp add: tempFiles_of_def)
  from p nz b len ne lo tf show ?thesis
    by blast
qed

theorem numThreads_positive_witness:
  "in_uint 0 \<and> numThreads_of 0 50 = 2 \<and> block_of 50 2 = 25
   \<and> length (ranges_of 50 (numThreads_of 0 50)) = 2
   \<and> tempFiles_of (numThreads_of 0 50) \<noteq> []"
proof -
  have h: "in_uint 0" by (simp add: in_uint_def UINT_MAX_def)
  have n: "numThreads_of 0 50 = 2"
    by (simp add: numThreads_of_def hw_of_def u32_def)
  have b: "block_of 50 2 = ceil_div 50 2"
    using numThreads_positive [OF h, of 50] by (simp add: n)
  have "ceil_div 50 2 = 25"
    by (simp add: ceil_div_def ll_def signed_divide_int_def)
  with h n b show ?thesis
    using numThreads_positive [OF h, of 50] by simp
qed

text \<open>
  Claim C8. Whatever the accumulator holds, also values that several worker sources
  contributed twice, the sorted and deduplicated sequence is strictly ascending: each
  element is smaller than its successor, so no value occurs twice.
\<close>

theorem finalize_strictly_ascending:
  "(\<forall>i. i + 1 < length (finalize all) \<longrightarrow> finalize all ! i < finalize all ! (i + 1))
   \<and> distinct (finalize all)"
proof -
  have s: "sorted (finalize all)"
    by (simp add: finalize_def)
  have d: "distinct (finalize all)"
    unfolding finalize_def by (rule distinct_remdups_adj_sorted) simp
  from s d have "sorted_wrt (<) (finalize all)"
    by (simp add: strict_sorted_iff)
  then have "\<forall>i. i + 1 < length (finalize all) \<longrightarrow> finalize all ! i < finalize all ! (i + 1)"
    by (simp add: sorted_wrt_iff_nth_less)
  with d show ?thesis by simp
qed

theorem finalize_strictly_ascending_witness:
  "finalize [5, 2, 3, 2, 7, 5, 3] = [2, 3, 5, 7]
   \<and> (0::nat) + 1 < length (finalize [5, 2, 3, 2, 7, 5, 3])
   \<and> finalize [5, 2, 3, 2, 7, 5, 3] ! 0 < finalize [5, 2, 3, 2, 7, 5, 3] ! (0 + 1)"
proof -
  have e: "finalize [5, 2, 3, 2, 7, 5, 3] = [2, 3, 5, 7]"
    by (simp add: finalize_def)
  then have l: "(0::nat) + 1 < length (finalize [5, 2, 3, 2, 7, 5, 3])"
    by simp
  with e finalize_strictly_ascending [of "[5, 2, 3, 2, 7, 5, 3]"] show ?thesis
    by blast
qed

subsection \<open>The limit parser\<close>

lemma accumulate_snoc: "accumulate (s @ [c]) = 10 * accumulate s + digit_val c"
  by (simp add: accumulate_def)

lemma numeric_value_snoc: "numeric_value (s @ [c]) = 10 * numeric_value s + digit_val c"
proof -
  define f where "f = (\<lambda>i. digit_val (s ! i) * 10 ^ (length s - Suc i))"
  define g where "g = (\<lambda>i. digit_val ((s @ [c]) ! i) * 10 ^ (length (s @ [c]) - Suc i))"
  have m: "map g [0..<length s] = map (\<lambda>i. 10 * f i) [0..<length s]"
  proof (rule map_cong [OF refl])
    fix i assume "i \<in> set [0..<length s]"
    then have i: "i < length s" by simp
    then have "length (s @ [c]) - Suc i = Suc (length s - Suc i)" by simp
    with i show "g i = 10 * f i"
      by (simp add: f_def g_def nth_append del: length_append)
  qed
  have "sum_list (map g [0..<length s]) = 10 * sum_list (map f [0..<length s])"
    unfolding m by (simp add: sum_list_const_mult)
  moreover have "g (length s) = digit_val c"
    by (simp add: g_def)
  moreover have "numeric_value (s @ [c]) = sum_list (map g [0..<length s]) + g (length s)"
    unfolding numeric_value_def g_def by simp
  moreover have "numeric_value s = sum_list (map f [0..<length s])"
    unfolding numeric_value_def f_def by simp
  ultimately show ?thesis by simp
qed

lemma accumulate_numeric_value: "accumulate s = numeric_value s"
proof (induction s rule: rev_induct)
  case Nil
  show ?case by (simp add: accumulate_def numeric_value_def)
next
  case (snoc c s)
  then show ?case by (simp add: accumulate_snoc numeric_value_snoc)
qed

lemma isdigit_not_space: "isdigit c \<Longrightarrow> \<not> isspace c"
  by (auto simp: isdigit_def isspace_def)

lemma isdigit_not_sign: "isdigit c \<Longrightarrow> c \<noteq> CHR ''-'' \<and> c \<noteq> CHR ''+''"
  by (auto simp: isdigit_def)

lemma extract_ll_digits:
  assumes "ds \<noteq> []" "list_all isdigit ds" "t = [] \<or> \<not> isdigit (hd t)"
  shows "extract_ll (open_stream (ds @ t)) v =
     (\<lparr>buf = t, failbit = (int (accumulate ds) > LLONG_MAX), eofbit = (t = [])\<rparr>,
      if int (accumulate ds) > LLONG_MAX then LLONG_MAX else int (accumulate ds))"
proof -
  from assms(1) obtain c cs where ds: "ds = c # cs" by (cases ds) auto
  with assms(2) have c: "isdigit c" by simp
  have tw: "takeWhile isdigit (ds @ t) = ds"
    using assms(2,3) by (cases t) (auto simp: list_all_iff)
  have dw: "dropWhile isdigit (ds @ t) = t"
    using assms(2,3) by (cases t) (auto simp: list_all_iff)
  have sp: "dropWhile isspace (ds @ t) = ds @ t"
    using c by (simp add: ds isdigit_not_space)
  have hd: "hd (ds @ t) = c" by (simp add: ds)
  have nonneg: "\<not> int (accumulate ds) < LLONG_MIN" by (simp add: LLONG_MIN_def)
  show ?thesis
    using assms(1) nonneg isdigit_not_sign [OF c]
    by (simp add: extract_ll_def open_stream_def sp hd tw dw Let_def)
qed

lemma parseLimit_eq:
  "parseLimit s =
     (if s \<noteq> [] \<and> list_all isdigit s \<and> int (accumulate s) \<le> LLONG_MAX
      then Some (int (accumulate s)) else None)"
proof (cases "s \<noteq> [] \<and> list_all isdigit s")
  case True
  then have "extract_ll (open_stream s) 0 =
     (\<lparr>buf = [], failbit = (int (accumulate s) > LLONG_MAX), eofbit = True\<rparr>,
      if int (accumulate s) > LLONG_MAX then LLONG_MAX else int (accumulate s))"
    using extract_ll_digits [of s "[]" 0] by simp
  with True show ?thesis by (simp add: parseLimit_def)
next
  case False
  then show ?thesis by (auto simp: parseLimit_def)
qed

text \<open>
  Claim C9. The limit parser accepts a string exactly when it is not empty, every
  character is a decimal digit (so a sign or a blank anywhere rejects it) and the number
  it denotes is at most \<open>LLONG_MAX\<close>; an accepted string yields that number. When the
  parser rejects the argument, \<open>main\<close> returns the error at once: no worker runs and
  the file system is unchanged.
\<close>

theorem parseLimit_accepts_iff:
  "(parseLimit s \<noteq> None) = (s \<noteq> [] \<and> list_all isdigit s \<and> int (numeric_value s) \<le> LLONG_MAX)
   \<and> (parseLimit s \<noteq> None \<longrightarrow> parseLimit s = Some (int (numeric_value s)))
   \<and> (parseLimit s = None \<longrightarrow>
        main [prog, s] hw0 reserve_ok can_write disk_room can_read fs =
          Some (Returned (Inl BadLimit, fs)))"
proof -
  have a: "(parseLimit s \<noteq> None) = (s \<noteq> [] \<and> list_all isdigit s \<and> int (numeric_value s) \<le> LLONG_MAX)"
    by (simp add: parseLimit_eq accumulate_numeric_value)
  have b: "parseLimit s \<noteq> None \<longrightarrow> parseLimit s = Some (int (numeric_value s))"
    by (simp add: parseLimit_eq accumulate_numeric_value)
  have c: "parseLimit s = None \<longrightarrow>
        main [prog, s] hw0 reserve_ok can_write disk_room can_read fs =
          Some (Returned (Inl BadLimit, fs))"
    by (simp add: main_def)
  from a b c show ?thesis by blast
qed

theorem parseLimit_accepts_iff_witness:
  "parseLimit ''50'' = Some 50
   \<and> parseLimit ''9223372036854775808'' = None
   \<and> parseLimit ''+5'' = None
   \<and> main [''prime_numbers'', ''+5''] 4 (\<lambda>n. True) (\<lambda>f. True) (\<lambda>f. 0) (\<lambda>f. True) Map.empty
       = Some (Returned (Inl BadLimit, Map.empty))"
proof -
  have d: "list_all isdigit ''50''" "list_all isdigit ''9223372036854775808''"
    "\<not> list_all isdigit ''+5''"
    by (simp_all add: isdigit_def)
  have n: "numeric_value ''50'' = 50" "numeric_value ''9223372036854775808'' = 9223372036854775808"
    by (simp_all add: numeric_value_def digit_val_def upt_conv_Cons)
  have a: "parseLimit ''50'' = Some 50"
    using parseLimit_accepts_iff [of "''50''"] d n by (simp add: LLONG_MAX_def)
  have b: "parseLimit ''9223372036854775808'' = None"
    using parseLimit_accepts_iff [of "''9223372036854775808''"] d n by (simp add: LLONG_MAX_def)
  have c: "parseLimit ''+5'' = None"
    using parseLimit_accepts_iff [of "''+5''"] d by simp
  have "main [''prime_numbers'', ''+5''] 4 (\<lambda>n. True) (\<lambda>f. True) (\<lambda>f. 0) (\<lambda>f. True) Map.empty
       = Some (Returned (Inl BadLimit, Map.empty))"
    using parseLimit_accepts_iff [of "''+5''" "''prime_numbers''" 4 "\<lambda>n. True" "\<lambda>f. True" "\<lambda>f. 0"
        "\<lambda>f. True" Map.empty] c
    by blast
  with a b c show ?thesis by simp
qed

subsection \<open>Writing and reading a file\<close>

lemma digit_char_props: "k < 10 \<Longrightarrow> digit_val (digit_char k) = k \<and> isdigit (digit_char k)"
proof -
  assume "k < 10"
  then have "k \<in> {0, 1, 2, 3, 4, 5, 6, 7, 8, 9}" by auto
  then show ?thesis
    by (auto simp: digit_char_def digit_val_def isdigit_def)
qed

lemma put_nat_digits: "put_nat n \<noteq> [] \<and> list_all isdigit (put_nat n) \<and> accumulate (put_nat n) = n"
proof (induction n rule: put_nat.induct)
  case (1 n)
  show ?case
  proof (cases "n < 10")
    case True
    then show ?thesis
      using digit_char_props [of n] by (subst (1 2 3) put_nat.simps) (simp add: accumulate_def)
  next
    case False
    with 1 have ih: "list_all isdigit (put_nat (n div 10))" "accumulate (put_nat (n div 10)) = n div 10"
      by auto
    have "n mod 10 < 10" by simp
    from digit_char_props [OF this] ih False show ?thesis
      by (subst (1 2 3) put_nat.simps) (simp add: accumulate_snoc)
  qed
qed

lemma extract_ll_put_ll:
  assumes "in_ll x" "\<not> isdigit c"
  shows "extract_ll (open_stream (put_ll x @ c # t)) v = (open_stream (c # t), x)"
proof (cases "x < 0")
  case False
  let ?ds = "put_nat (nat x)"
  have a: "int (accumulate ?ds) = x" using False by (simp add: put_nat_digits)
  have "extract_ll (open_stream (?ds @ c # t)) v =
     (\<lparr>buf = c # t, failbit = (int (accumulate ?ds) > LLONG_MAX), eofbit = (c # t = [])\<rparr>,
      if int (accumulate ?ds) > LLONG_MAX then LLONG_MAX else int (accumulate ?ds))"
    using assms(2) by (intro extract_ll_digits) (simp_all add: put_nat_digits)
  with a assms(1) False show ?thesis
    by (simp add: put_ll_def in_ll_def open_stream_def)
next
  case True
  let ?ds = "put_nat (nat (- x))"
  have a: "int (accumulate ?ds) = - x" using True by (simp add: put_nat_digits)
  have ne: "?ds \<noteq> []" and dg: "list_all isdigit ?ds" by (simp_all add: put_nat_digits)
  have tw: "takeWhile isdigit (?ds @ c # t) = ?ds"
    using dg assms(2) by (auto simp: list_all_iff)
  have dw: "dropWhile isdigit (?ds @ c # t) = c # t"
    using dg assms(2) by (auto simp: list_all_iff)
  have sp: "\<not> isspace CHR ''-''" by (simp add: isspace_def)
  show ?thesis
    using a assms(1) True ne
    by (simp add: extract_ll_def open_stream_def put_ll_def sp tw dw Let_def in_ll_def)
qed

lemma extract_ll_skip_space:
  "extract_ll (open_stream (CHR '' '' # t)) v = extract_ll (open_stream t) v"
  by (simp add: extract_ll_def open_stream_def isspace_def)

lemma extract_ll_newline:
  "extract_ll (open_stream [CHR 0x0A]) v = (\<lparr>buf = [], failbit = True, eofbit = True\<rparr>, v)"
  by (simp add: extract_ll_def open_stream_def isspace_def)

lemma read_loop_cong:
  "extract_ll s v = extract_ll s' v' \<Longrightarrow> read_loop s v all = read_loop s' v' all"
  by (subst (1 2) read_loop.simps) simp

lemma read_loop_space_separated:
  "\<forall>x \<in> set xs. in_ll x \<Longrightarrow>
     read_loop (open_stream (space_separated xs @ [CHR 0x0A])) v all = all @ xs"
proof (induction xs arbitrary: v all rule: space_separated.induct)
  case 1
  show ?case by (subst read_loop.simps) (simp add: extract_ll_newline)
next
  case (2 x)
  have nd: "\<not> isdigit (CHR 0x0A)" by (simp add: isdigit_def)
  have "extract_ll (open_stream (put_ll x @ [CHR 0x0A])) v = (open_stream [CHR 0x0A], x)"
    using 2 nd by (intro extract_ll_put_ll) auto
  then have "read_loop (open_stream (put_ll x @ [CHR 0x0A])) v all
      = read_loop (open_stream [CHR 0x0A]) x (all @ [x])"
    by (subst read_loop.simps) (simp add: open_stream_def)
  also have "\<dots> = all @ [x]"
    by (subst read_loop.simps) (simp add: extract_ll_newline)
  finally show ?case by simp
next
  case (3 x y ys)
  let ?t = "space_separated (y # ys) @ [CHR 0x0A]"
  have nd: "\<not> isdigit (CHR '' '')" by (simp add: isdigit_def)
  have "extract_ll (open_stream (put_ll x @ CHR '' '' # ?t)) v = (open_stream (CHR '' '' # ?t), x)"
    using 3(2) nd by (intro extract_ll_put_ll) auto
  then have "read_loop (open_stream (put_ll x @ CHR '' '' # ?t)) v all
      = read_loop (open_stream (CHR '' '' # ?t)) x (all @ [x])"
    by (subst read_loop.simps) (simp add: open_stream_def)
  also have "\<dots> = read_loop (open_stream ?t) x (all @ [x])"
    by (rule read_loop_cong) (rule extract_ll_skip_space)
  also have "\<dots> = (all @ [x]) @ y # ys"
    using 3(2) by (intro 3(1)) auto
  finally show ?case by simp
qed

lemma space_separated_drop:
  assumes "i < length xs"
  shows "space_separated (drop i xs) =
     put_ll (xs ! i) @ (if i + 1 = length xs then [] else [CHR '' '']) @ space_separated (drop (i + 1) xs)"
proof -
  have d: "drop i xs = xs ! i # drop (i + 1) xs"
    using assms by (simp add: Cons_nth_drop_Suc)
  show ?thesis
  proof (cases "drop (i + 1) xs")
    case Nil
    then have "i + 1 = length xs" using assms by simp
    with d Nil show ?thesis by simp
  next
    case (Cons y ys)
    then have "i + 1 \<noteq> length xs" by auto
    with d Cons show ?thesis by simp
  qed
qed

lemma write_loop_space_separated:
  "i \<le> length xs \<Longrightarrow> write_loop xs i ofs = ofs @ space_separated (drop i xs)"
proof (induction xs i ofs rule: write_loop.induct)
  case (1 localOut i ofs)
  show ?case
  proof (cases "i < length localOut")
    case False
    with 1(2) show ?thesis by (subst write_loop.simps) simp
  next
    case True
    let ?sep = "if i + 1 = length localOut then [] else [CHR '' '']"
    have "write_loop localOut i ofs = write_loop localOut (i + 1) (ofs @ put_ll (localOut ! i) @ ?sep)"
      using True by (subst write_loop.simps) simp
    also have "\<dots> = (ofs @ put_ll (localOut ! i) @ ?sep) @ space_separated (drop (i + 1) localOut)"
      using True by (intro 1(1)) auto
    also have "\<dots> = ofs @ space_separated (drop i localOut)"
      using space_separated_drop [OF True] by simp
    finally show ?thesis .
  qed
qed

lemma serialize_eq: "serialize xs = space_separated xs @ [CHR 0x0A]"
  by (simp add: serialize_def write_loop_space_separated)

text \<open>
  Claim C7. The worker writes its sequence as decimal integers separated by one blank and
  ended by one newline; the empty sequence gives a file that holds the newline alone.
  Reading the file back with the merge loop returns the sequence that was written, for
  every sequence of \<^verbatim>\<open>long long\<close> values.
\<close>

theorem serialize_roundtrip:
  "serialize [] = [CHR 0x0A]
   \<and> serialize xs = space_separated xs @ [CHR 0x0A]
   \<and> ((\<forall>x \<in> set xs. in_ll x) \<longrightarrow> read_loop (open_stream (serialize xs)) v [] = xs)"
proof -
  have a: "serialize [] = [CHR 0x0A]"
    by (simp add: serialize_eq)
  have b: "serialize xs = space_separated xs @ [CHR 0x0A]"
    by (rule serialize_eq)
  have c: "(\<forall>x \<in> set xs. in_ll x) \<longrightarrow> read_loop (open_stream (serialize xs)) v [] = xs"
    by (simp add: serialize_eq read_loop_space_separated)
  from a b c show ?thesis by blast
qed

theorem serialize_roundtrip_witness:
  "serialize [2, 3, -5] = ''2 3 -5'' @ [CHR 0x0A]
   \<and> in_ll 2 \<and> in_ll 3 \<and> in_ll (- 5)
   \<and> read_loop (open_stream (''2 3 -5'' @ [CHR 0x0A])) 0 [] = [2, 3, - 5]"
proof -
  have r: "\<forall>x \<in> set [2, 3, - 5]. in_ll x"
    by (simp add: in_ll_def LLONG_MIN_def LLONG_MAX_def)
  have s: "space_separated [2, 3, - 5] = ''2 3 -5''"
    by (simp add: put_ll_def put_nat.simps digit_char_def)
  have i: "in_ll 2 \<and> in_ll 3 \<and> in_ll (- 5)"
    using r by simp
  have e: "serialize [2, 3, - 5] = ''2 3 -5'' @ [CHR 0x0A]"
    using serialize_roundtrip [of "[2, 3, - 5]" 0] s by simp
  have "read_loop (open_stream (serialize [2, 3, - 5])) 0 [] = [2, 3, - 5]"
    using serialize_roundtrip [of "[2, 3, - 5]" 0] r by blast
  with e i show ?thesis
    by simp
qed

subsection \<open>The merge loop\<close>

lemma read_loop_acc: "read_loop s v all = all @ read_loop s v []"
proof (induction "length (buf s)" arbitrary: s v all rule: less_induct)
  case less
  obtain s' v' where e: "extract_ll s v = (s', v')" by (cases "extract_ll s v")
  show ?case
  proof (cases "failbit s'")
    case True
    with e show ?thesis by (subst (1 2) read_loop.simps) simp
  next
    case False
    with e have l: "length (buf s') < length (buf s)" by (rule extract_ll_consumes)
    have "read_loop s' v' (all @ [v']) = (all @ [v']) @ read_loop s' v' []"
      using l by (rule less)
    moreover have "read_loop s' v' [v'] = [v'] @ read_loop s' v' []"
      using l by (rule less)
    ultimately show ?thesis
      using e False by (subst (1 2) read_loop.simps) simp
  qed
qed

lemma merge_loop_sources:
  "merge_loop ifstream tempFiles locals numThreads i all =
     all @ concat (map (worker_source ifstream tempFiles locals) [i..<numThreads])"
proof (induction ifstream tempFiles locals numThreads i all rule: merge_loop.induct)
  case (1 ifstream tempFiles locals numThreads i all)
  show ?case
  proof (cases "i < numThreads")
    case False
    then show ?thesis by (subst merge_loop.simps) simp
  next
    case True
    then have u: "[i..<numThreads] = i # [i + 1..<numThreads]" by (simp add: upt_conv_Cons)
    show ?thesis
    proof (cases "ifstream (tempFiles ! i)")
      case None
      then have w: "worker_source ifstream tempFiles locals i = locals ! i"
        by (simp add: worker_source_def)
      from True None 1(1) [OF True None] u w show ?thesis
        by (subst merge_loop.simps) simp
    next
      case (Some content)
      then have w: "worker_source ifstream tempFiles locals i = read_loop (open_stream content) 0 []"
        by (simp add: worker_source_def)
      from True Some 1(2) [OF True Some] u w show ?thesis
        by (subst merge_loop.simps) (simp add: read_loop_acc [of _ _ all])
    qed
  qed
qed

lemma merge_loop_split:
  assumes "i < numThreads"
  shows "merge_loop ifstream tempFiles locals numThreads 0 [] =
     merge_loop ifstream tempFiles locals i 0 [] @ worker_source ifstream tempFiles locals i
       @ merge_loop ifstream tempFiles locals numThreads (i + 1) []"
proof -
  have "[0..<numThreads] = [0..<i] @ i # [i + 1..<numThreads]"
    using assms by (metis Suc_eq_plus1 le0 less_or_eq_imp_le upt_add_eq_append upt_conv_Cons le_add_diff_inverse)
  then show ?thesis by (simp add: merge_loop_sources)
qed

lemma worker_source_update:
  assumes "ifstream (tempFiles ! i) \<noteq> None"
  shows "worker_source ifstream tempFiles (locals[i := other]) = worker_source ifstream tempFiles locals"
proof
  fix j
  show "worker_source ifstream tempFiles (locals[i := other]) j = worker_source ifstream tempFiles locals j"
  proof (cases "j = i")
    case True
    with assms show ?thesis by (auto simp: worker_source_def)
  next
    case False
    then have "i \<noteq> j" by simp
    then show ?thesis by (simp add: worker_source_def split: option.split)
  qed
qed

text \<open>
  Claim C6. When the file of worker \<open>i\<close> opens, the merge appends exactly the numbers
  read from it (none when the file is empty), between what the workers before and after
  \<open>i\<close> contribute; the local vector of worker \<open>i\<close> is not consulted: replacing it by
  any other vector leaves the accumulator unchanged.
\<close>

theorem merge_artifact_authoritative:
  "i < numThreads \<Longrightarrow> ifstream (tempFiles ! i) = Some content \<Longrightarrow>
     merge_loop ifstream tempFiles locals numThreads 0 [] =
       merge_loop ifstream tempFiles locals i 0 [] @ read_loop (open_stream content) 0 []
         @ merge_loop ifstream tempFiles locals numThreads (i + 1) []
   \<and> merge_loop ifstream tempFiles (locals[i := other]) numThreads 0 [] =
       merge_loop ifstream tempFiles locals numThreads 0 []"
proof -
  assume i: "i < numThreads" and o: "ifstream (tempFiles ! i) = Some content"
  have a: "merge_loop ifstream tempFiles locals numThreads 0 [] =
       merge_loop ifstream tempFiles locals i 0 [] @ read_loop (open_stream content) 0 []
         @ merge_loop ifstream tempFiles locals numThreads (i + 1) []"
    using merge_loop_split [OF i, of ifstream tempFiles locals] o by (simp add: worker_source_def)
  have b: "merge_loop ifstream tempFiles (locals[i := other]) numThreads 0 [] =
       merge_loop ifstream tempFiles locals numThreads 0 []"
    using o by (simp add: merge_loop_sources worker_source_update)
  from a b show ?thesis by blast
qed

lemmas stream_eval = open_stream_def extract_ll_def isspace_def isdigit_def accumulate_def digit_val_def
  LLONG_MAX_def LLONG_MIN_def

theorem merge_artifact_authoritative_witness:
  "(0::nat) < 2
   \<and> merge_loop [''a'' \<mapsto> ''2 4'', ''b'' \<mapsto> ''''] [''a'', ''b''] [[2, 3], [5, 7]] 2 0 [] = [2, 4]
   \<and> merge_loop [''a'' \<mapsto> ''2 4'', ''b'' \<mapsto> ''''] [''a'', ''b''] ([[2, 3], [5, 7]][0 := [11]]) 2 0 [] = [2, 4]"
proof -
  let ?f = "[''a'' \<mapsto> ''2 4'', ''b'' \<mapsto> '''']"
  have o: "?f ([''a'', ''b''] ! 0) = Some ''2 4''" by simp
  have r: "read_loop (open_stream ''2 4'') 0 [] = [2, 4]"
    by (simp add: read_loop.simps stream_eval)
  have p: "merge_loop ?f [''a'', ''b''] [[2, 3], [5, 7]] 0 0 [] = []"
    by (simp add: merge_loop.simps)
  have q: "merge_loop ?f [''a'', ''b''] [[2, 3], [5, 7]] 2 (0 + 1) [] = []"
    by (simp add: merge_loop.simps read_loop.simps stream_eval)
  have z: "(0::nat) < 2" by simp
  from merge_artifact_authoritative [of 0 2 ?f "[''a'', ''b'']" "''2 4''" "[[2, 3], [5, 7]]" "[11]", OF z o]
    r p q z
  show ?thesis by simp
qed


lemma worker_source_written:
  assumes "ifstream (tempFiles ! i) = None \<or> ifstream (tempFiles ! i) = Some (serialize (locals ! i))"
    and "\<forall>x \<in> set (locals ! i). in_ll x"
  shows "worker_source ifstream tempFiles locals i = locals ! i"
  using assms by (auto simp: worker_source_def serialize_eq read_loop_space_separated)

lemma merge_loop_written:
  assumes "\<forall>i<numThreads.
      (ifstream (tempFiles ! i) = None \<or> ifstream (tempFiles ! i) = Some (serialize (locals ! i)))
      \<and> (\<forall>x \<in> set (locals ! i). in_ll x)"
  shows "merge_loop ifstream tempFiles locals numThreads 0 [] =
     concat (map (\<lambda>i. locals ! i) [0..<numThreads])"
proof -
  have m: "map (worker_source ifstream tempFiles locals) [0..<numThreads] =
      map (\<lambda>i. locals ! i) [0..<numThreads]"
    using assms by (intro map_cong [OF refl] worker_source_written) auto
  show ?thesis unfolding merge_loop_sources m by simp
qed

lemma merge_loop_fallback:
  assumes "\<forall>i<numThreads. (fs (tempFiles ! i) = None \<or> fs (tempFiles ! i) = Some (serialize (locals ! i)))
      \<and> (\<forall>x \<in> set (locals ! i). in_ll x)"
  shows "merge_loop (open_in can_read fs) tempFiles locals numThreads 0 [] =
     concat (map (\<lambda>i. locals ! i) [0..<numThreads])"
  using assms by (intro merge_loop_written) (auto simp: open_in_def)

text \<open>
  Claim C5, amended. When the file of worker \<open>i\<close> cannot be opened, the merge appends
  the local vector of that worker and goes on with the other workers. When every file
  either is missing or holds what its worker serialized, the final sequence is the same
  whichever files cannot be read. A file that opens counts as read, whatever it holds:
  the numbers before its first unreadable token are taken and the local vector is not
  used.
\<close>

theorem merge_fallback:
  "(i < numThreads \<and> ifstream (tempFiles ! i) = None \<longrightarrow>
      merge_loop ifstream tempFiles locals numThreads 0 [] =
        merge_loop ifstream tempFiles locals i 0 [] @ locals ! i
          @ merge_loop ifstream tempFiles locals numThreads (i + 1) [])
   \<and> ((\<forall>j<numThreads.
          (fs (tempFiles ! j) = None \<or> fs (tempFiles ! j) = Some (serialize (locals ! j)))
          \<and> (\<forall>x \<in> set (locals ! j). in_ll x)) \<longrightarrow>
        finalize (merge_loop (open_in can_read fs) tempFiles locals numThreads 0 []) =
        finalize (merge_loop (open_in (\<lambda>f. True) fs) tempFiles locals numThreads 0 []))"
proof -
  have a: "i < numThreads \<and> ifstream (tempFiles ! i) = None \<longrightarrow>
      merge_loop ifstream tempFiles locals numThreads 0 [] =
        merge_loop ifstream tempFiles locals i 0 [] @ locals ! i
          @ merge_loop ifstream tempFiles locals numThreads (i + 1) []"
  proof
    assume h: "i < numThreads \<and> ifstream (tempFiles ! i) = None"
    then have "worker_source ifstream tempFiles locals i = locals ! i"
      by (simp add: worker_source_def)
    with h merge_loop_split [of i numThreads ifstream tempFiles locals]
    show "merge_loop ifstream tempFiles locals numThreads 0 [] =
        merge_loop ifstream tempFiles locals i 0 [] @ locals ! i
          @ merge_loop ifstream tempFiles locals numThreads (i + 1) []"
      by simp
  qed
  have b: "(\<forall>j<numThreads.
          (fs (tempFiles ! j) = None \<or> fs (tempFiles ! j) = Some (serialize (locals ! j)))
          \<and> (\<forall>x \<in> set (locals ! j). in_ll x)) \<longrightarrow>
        finalize (merge_loop (open_in can_read fs) tempFiles locals numThreads 0 []) =
        finalize (merge_loop (open_in (\<lambda>f. True) fs) tempFiles locals numThreads 0 [])"
  proof
    assume h: "\<forall>j<numThreads.
          (fs (tempFiles ! j) = None \<or> fs (tempFiles ! j) = Some (serialize (locals ! j)))
          \<and> (\<forall>x \<in> set (locals ! j). in_ll x)"
    have "merge_loop (open_in can_read fs) tempFiles locals numThreads 0 [] =
        merge_loop (open_in (\<lambda>f. True) fs) tempFiles locals numThreads 0 []"
      using merge_loop_fallback [OF h, of can_read] merge_loop_fallback [OF h, of "\<lambda>f. True"]
      by simp
    then show "finalize (merge_loop (open_in can_read fs) tempFiles locals numThreads 0 []) =
        finalize (merge_loop (open_in (\<lambda>f. True) fs) tempFiles locals numThreads 0 [])"
      by simp
  qed
  from a b show ?thesis by blast
qed

theorem merge_fallback_witness:
  "open_in (\<lambda>f. f \<noteq> ''b'') [''a'' \<mapsto> serialize [2, 3], ''b'' \<mapsto> serialize [5]] ([''a'', ''b''] ! 1) = None
   \<and> merge_loop (open_in (\<lambda>f. f \<noteq> ''b'') [''a'' \<mapsto> serialize [2, 3], ''b'' \<mapsto> serialize [5]])
        [''a'', ''b''] [[2, 3], [5]] 2 0 [] = [2, 3, 5]
   \<and> finalize (merge_loop (open_in (\<lambda>f. True) [''a'' \<mapsto> serialize [2, 3], ''b'' \<mapsto> serialize [5]])
        [''a'', ''b''] [[2, 3], [5]] 2 0 []) = [2, 3, 5]"
proof -
  let ?fs = "[''a'' \<mapsto> serialize [2, 3], ''b'' \<mapsto> serialize [5]]"
  let ?rd = "\<lambda>f. f \<noteq> ''b''"
  let ?tf = "[''a'', ''b'']"
  let ?lc = "[[2, 3], [5 :: int]]"
  have s: "serialize [2, 3] = ''2 3'' @ [CHR 0x0A]"
    by (simp add: serialize_def write_loop.simps put_ll_def put_nat.simps digit_char_def)
  have n: "open_in ?rd ?fs (?tf ! 1) = None"
    by (simp add: open_in_def)
  have h: "\<forall>j<2. (?fs (?tf ! j) = None \<or> ?fs (?tf ! j) = Some (serialize (?lc ! j)))
      \<and> (\<forall>x \<in> set (?lc ! j). in_ll x)"
    by (simp add: less_Suc_eq numeral_2_eq_2 in_ll_def LLONG_MIN_def LLONG_MAX_def)
  have p: "merge_loop (open_in ?rd ?fs) ?tf ?lc 1 0 [] = [2, 3]"
    by (simp add: merge_loop.simps open_in_def s read_loop.simps stream_eval)
  have q: "merge_loop (open_in ?rd ?fs) ?tf ?lc 2 (1 + 1) [] = []"
    by (simp add: merge_loop.simps)
  have m: "merge_loop (open_in ?rd ?fs) ?tf ?lc 2 0 [] = [2, 3, 5]"
    using merge_fallback [of 1 2 "open_in ?rd ?fs" ?tf ?lc] n p q by simp
  then have "finalize (merge_loop (open_in ?rd ?fs) ?tf ?lc 2 0 []) = [2, 3, 5]"
    by (simp add: finalize_def)
  moreover have "finalize (merge_loop (open_in ?rd ?fs) ?tf ?lc 2 0 []) =
      finalize (merge_loop (open_in (\<lambda>f. True) ?fs) ?tf ?lc 2 0 [])"
    using merge_fallback [of 0 2 "open_in ?rd ?fs" ?tf ?lc ?fs ?rd] h by blast
  ultimately show ?thesis using n m by simp
qed

text \<open>
  The claim C5 as stated fails for a file that opens with corrupt content: the local
  vector \<open>[2, 3, 5]\<close> is not substituted.
\<close>

theorem merge_corrupt_artifact_counterexample:
  "merge_loop (open_in (\<lambda>f. True) [''primes_thread_1.txt'' \<mapsto> ''2 x 5''])
     [''primes_thread_1.txt''] [[2, 3, 5]] 1 0 [] = [2]
   \<and> merge_loop (open_in (\<lambda>f. True) [''primes_thread_1.txt'' \<mapsto> ''2 x 5''])
     [''primes_thread_1.txt''] [[2, 3, 5]] 1 0 [] \<noteq> [2, 3, 5]"
  by (simp add: merge_loop.simps open_in_def read_loop.simps stream_eval)

subsection \<open>The worker\<close>



lemma upto_split_first: "i \<le> j \<Longrightarrow> [i..j] = i # [i + 1..j]"
  by (simp add: upto_rec1)

lemma worker_loop_filter:
  assumes "in_ll e" "e < LLONG_MAX"
  shows "in_ll x \<Longrightarrow> worker_loop e x localOut = Some (localOut @ filter is_prime [x..e])"
proof (induction "nat (e - x + 1)" arbitrary: x localOut rule: less_induct)
  case less
  show ?case
  proof (cases "x \<le> e")
    case False
    then show ?thesis by (subst worker_loop.simps) simp
  next
    case True
    with assms(2) less.prems have r: "in_ll (x + 1)"
      by (simp add: in_ll_def)
    then have s: "ll (x + 1) = x + 1" by (rule ll_id)
    have "worker_loop e (x + 1) (if is_prime x then localOut @ [x] else localOut)
        = Some ((if is_prime x then localOut @ [x] else localOut) @ filter is_prime [x + 1..e])"
      using True r by (intro less.hyps) auto
    with True s isPrime_is_prime [OF less.prems] show ?thesis
      by (subst worker_loop.simps) (simp add: upto_split_first)
  qed
qed

lemma workerTask_result:
  assumes "in_ll (start r)" "in_ll (end' r)" "end' r < LLONG_MAX"
    and "reserve_count r = 0 \<or> reserve_ok (reserve_count r)"
  shows "workerTask reserve_ok can_write disk_room i r name fs =
     Some (Returned (filter is_prime (range_list r),
           if can_write name
           then fs(name \<mapsto> take (disk_room name) (serialize (filter is_prime (range_list r))))
           else fs))"
  using worker_loop_filter [OF assms(2,3,1), of "[]"] assms(4)
  by (auto simp: workerTask_def range_list_def)


subsection \<open>The partition planner\<close>

lemma ll_diff_left: "ll (ll x - y) = ll (x - y)"
proof -
  have "(x + 9223372036854775808) mod 18446744073709551616 - y
      = ((x + 9223372036854775808) mod 18446744073709551616 - 9223372036854775808 - y) + 9223372036854775808"
    by simp
  then have "ll (ll x - y) = ((x + 9223372036854775808) mod 18446744073709551616 - y) mod 18446744073709551616 - 9223372036854775808"
    by (simp add: ll_def)
  also have "\<dots> = (x + 9223372036854775808 - y) mod 18446744073709551616 - 9223372036854775808"
    by (simp only: mod_diff_left_eq)
  also have "\<dots> = ll (x - y)"
    by (simp add: ll_def algebra_simps)
  finally show ?thesis .
qed

lemma sdiv_nonneg: "0 \<le> a \<Longrightarrow> 0 < b \<Longrightarrow> a sdiv b = a div (b::int)"
  by (cases "a = 0") (simp_all add: signed_divide_int_def sgn_if)

lemma block_bounds:
  fixes limit n :: int
  assumes "0 \<le> limit" "1 \<le> n"
  defines "b \<equiv> (limit + n - 1) div n"
  shows "0 \<le> b" and "limit \<le> n * b" and "n * b \<le> limit + n - 1"
proof -
  have e: "limit + n - 1 = n * b + (limit + n - 1) mod n"
    unfolding b_def by simp
  have m: "0 \<le> (limit + n - 1) mod n" "(limit + n - 1) mod n < n"
    using assms(2) by simp_all
  show "0 \<le> b" unfolding b_def using assms by (simp add: pos_imp_zdiv_nonneg_iff)
  show "limit \<le> n * b" using e m by linarith
  show "n * b \<le> limit + n - 1" using e m by linarith
qed

lemma ceil_div_exact:
  assumes "0 \<le> a" "1 \<le> b" "a + b - 1 \<le> LLONG_MAX"
  shows "ceil_div a b = (a + b - 1) div b"
proof -
  have r: "in_ll (a + b - 1)"
    using assms by (simp add: in_ll_def LLONG_MIN_def)
  have "ll (ll (a + b) - 1) = ll (a + b - 1)" by (rule ll_diff_left)
  also have "\<dots> = a + b - 1" using r by (rule ll_id)
  finally have n: "ll (ll (a + b) - 1) = a + b - 1" .
  let ?q = "(a + b - 1) div b"
  have q0: "0 \<le> ?q" and qb: "b * ?q \<le> a + b - 1"
    using block_bounds [OF assms(1,2)] by simp_all
  have "1 * ?q \<le> b * ?q"
    using assms(2) q0 by (intro mult_right_mono) auto
  with q0 qb assms(3) have "in_ll ?q"
    by (simp add: in_ll_def LLONG_MIN_def)
  then show ?thesis
    using assms by (simp add: ceil_div_def n sdiv_nonneg ll_id)
qed

lemma plan_range_exact:
  fixes limit n :: int
  assumes "0 \<le> limit" "1 \<le> n" "limit + n - 1 \<le> LLONG_MAX" "int i < n" "n \<le> LLONG_MAX"
  defines "b \<equiv> (limit + n - 1) div n"
  shows "plan_range limit b i =
     (if int i * b + 1 > min limit ((int i + 1) * b) then \<lparr>start = 1, end' = 0\<rparr>
      else \<lparr>start = int i * b + 1, end' = min limit ((int i + 1) * b)\<rparr>)"
proof -
  have bb: "0 \<le> b" "n * b \<le> limit + n - 1"
    using block_bounds [OF assms(1,2)] by (simp_all add: b_def)
  have "(int i + 1) * b \<le> n * b"
    using assms(4) bb(1) by (intro mult_right_mono) auto
  with bb(2) assms(3) have u: "(int i + 1) * b \<le> LLONG_MAX" by linarith
  have p: "0 \<le> int i * b" using bb(1) by simp
  have s: "(int i + 1) * b = int i * b + b" by (simp add: algebra_simps)
  from p s bb(1) u have r1: "in_ll (int i * b)" and r2: "in_ll ((int i + 1) * b)"
    unfolding in_ll_def LLONG_MIN_def by linarith+
  have "int i * b + 1 \<le> LLONG_MAX"
  proof (cases "b = 0")
    case True
    then show ?thesis by (simp add: LLONG_MAX_def)
  next
    case False
    with bb(1) s u show ?thesis by linarith
  qed
  with p have r3: "in_ll (int i * b + 1)"
    unfolding in_ll_def LLONG_MIN_def by linarith
  have r4: "in_ll (int i + 1)"
    using assms(4,5) unfolding in_ll_def LLONG_MIN_def by linarith
  show ?thesis
    by (simp add: plan_range_def ll_id r1 r2 r3 r4 Let_def)
qed


lemma upto_append_next: "i \<le> j + 1 \<Longrightarrow> j \<le> k \<Longrightarrow> [i..j] @ [j + 1..k] = [i..k]"
proof (cases "i \<le> j")
  case True
  assume "j \<le> k"
  with True show ?thesis using upto_split2 [of i j k] by simp
next
  case False
  assume "i \<le> j + 1"
  with False have "i = j + 1" by simp
  then show ?thesis by simp
qed

lemma ranges_prefix:
  fixes limit n :: int
  assumes "0 \<le> limit" "1 \<le> n" "limit + n - 1 \<le> LLONG_MAX" "n \<le> LLONG_MAX"
  defines "b \<equiv> (limit + n - 1) div n"
  shows "int k \<le> n \<Longrightarrow>
     concat (map (\<lambda>i. range_list (plan_range limit b i)) [0..<k]) = [1..min limit (int k * b)]"
proof (induction k)
  case 0
  show ?case by simp
next
  case (Suc k)
  have b0: "0 \<le> b" using block_bounds(1) [OF assms(1,2)] by (simp add: b_def)
  have kn: "int k < n" using Suc.prems by simp
  have s: "(int k + 1) * b = int k * b + b" by (simp add: algebra_simps)
  have ih: "concat (map (\<lambda>i. range_list (plan_range limit b i)) [0..<k]) = [1..min limit (int k * b)]"
    using Suc by simp
  have pr: "plan_range limit b k =
     (if int k * b + 1 > min limit ((int k + 1) * b) then \<lparr>start = 1, end' = 0\<rparr>
      else \<lparr>start = int k * b + 1, end' = min limit ((int k + 1) * b)\<rparr>)"
    unfolding b_def using assms(1,2,3) kn assms(4) by (rule plan_range_exact)
  have "[1..min limit (int k * b)] @ range_list (plan_range limit b k)
      = [1..min limit ((int k + 1) * b)]"
  proof (cases "int k * b + 1 > min limit ((int k + 1) * b)")
    case True
    with b0 s have "min limit (int k * b) = min limit ((int k + 1) * b)"
      by (cases "b = 0") auto
    with True pr show ?thesis by (simp add: range_list_def)
  next
    case False
    then have m: "min limit (int k * b) = int k * b" by auto
    have "0 \<le> int k * b" using b0 by simp
    then have "[1..int k * b] @ [int k * b + 1..min limit ((int k + 1) * b)]
        = [1..min limit ((int k + 1) * b)]"
      using False by (intro upto_append_next) auto
    with False pr m show ?thesis
      by (simp add: range_list_def)
  qed
  with ih show ?case by (simp add: algebra_simps)
qed

lemma ranges_cover:
  fixes limit n :: int
  assumes "0 \<le> limit" "1 \<le> n" "limit + n - 1 \<le> LLONG_MAX" "n \<le> LLONG_MAX"
  shows "concat (map range_list (ranges_of limit n)) = [1..limit]"
proof -
  let ?b = "(limit + n - 1) div n"
  have b: "block_of limit n = ?b"
    using assms by (simp add: block_of_def ceil_div_exact)
  have "limit \<le> n * ?b" using block_bounds(2) [OF assms(1,2)] .
  then have m: "min limit (int (nat n) * ?b) = limit" using assms(2) by simp
  have "concat (map (\<lambda>i. range_list (plan_range limit ?b i)) [0..<nat n]) = [1..min limit (int (nat n) * ?b)]"
    using assms by (intro ranges_prefix) auto
  with m show ?thesis by (simp add: ranges_of_def b comp_def)
qed

lemma plan_range_bounds:
  fixes limit n :: int
  assumes "0 \<le> limit" "1 \<le> n" "limit + n - 1 \<le> LLONG_MAX" "int i < n" "n \<le> LLONG_MAX"
    and "limit < LLONG_MAX"
  defines "r \<equiv> plan_range limit ((limit + n - 1) div n) i"
  shows "in_ll (start r) \<and> in_ll (end' r) \<and> end' r < LLONG_MAX"
proof -
  let ?b = "(limit + n - 1) div n"
  have pr: "r =
     (if int i * ?b + 1 > min limit ((int i + 1) * ?b) then \<lparr>start = 1, end' = 0\<rparr>
      else \<lparr>start = int i * ?b + 1, end' = min limit ((int i + 1) * ?b)\<rparr>)"
    unfolding r_def using assms(1-5) by (rule plan_range_exact)
  have b0: "0 \<le> ?b" using block_bounds(1) [OF assms(1,2)] .
  then have p: "0 \<le> int i * ?b" by simp
  show ?thesis
  proof (cases "int i * ?b + 1 > min limit ((int i + 1) * ?b)")
    case True
    with pr show ?thesis by (simp add: in_ll_def LLONG_MIN_def LLONG_MAX_def)
  next
    case False
    then have le: "int i * ?b + 1 \<le> min limit ((int i + 1) * ?b)" by linarith
    then have "int i * ?b + 1 \<le> limit" by linarith
    with False pr p le assms(6) show ?thesis
      unfolding in_ll_def LLONG_MIN_def by (simp add: min_def split: if_splits)
  qed
qed

lemma range_list_within:
  fixes limit n :: int
  assumes "0 \<le> limit" "1 \<le> n" "limit + n - 1 \<le> LLONG_MAX" "int i < n" "n \<le> LLONG_MAX"
  defines "b \<equiv> (limit + n - 1) div n"
  shows "set (range_list (plan_range limit b i)) \<subseteq> {int i * b + 1..(int i + 1) * b}"
proof -
  have "plan_range limit b i =
     (if int i * b + 1 > min limit ((int i + 1) * b) then \<lparr>start = 1, end' = 0\<rparr>
      else \<lparr>start = int i * b + 1, end' = min limit ((int i + 1) * b)\<rparr>)"
    unfolding b_def using assms(1-5) by (rule plan_range_exact)
  then show ?thesis by (auto simp: range_list_def)
qed

lemma ranges_of_partition:
  fixes limit n :: int
  assumes "0 \<le> limit" "1 \<le> n" "limit + n - 1 \<le> LLONG_MAX" "n \<le> LLONG_MAX"
  shows "length (ranges_of limit n) = nat n"
    and "\<forall>i<nat n. \<forall>j<nat n. i \<noteq> j \<longrightarrow>
           set (range_list (ranges_of limit n ! i)) \<inter> set (range_list (ranges_of limit n ! j)) = {}"
    and "(\<Union>r \<in> set (ranges_of limit n). set (range_list r)) = {1..limit}"
proof -
  let ?b = "(limit + n - 1) div n"
  have b: "block_of limit n = ?b"
    using assms by (simp add: block_of_def ceil_div_exact)
  have b0: "0 \<le> ?b" using block_bounds(1) [OF assms(1,2)] .
  show "length (ranges_of limit n) = nat n" by (simp add: ranges_of_def)
  have lt: "set (range_list (ranges_of limit n ! i)) \<inter> set (range_list (ranges_of limit n ! j)) = {}"
    if "i < j" "j < nat n" for i j
  proof -
    from that have i: "int i < n" and j: "int j < n" by simp_all
    have si: "set (range_list (ranges_of limit n ! i)) \<subseteq> {int i * ?b + 1..(int i + 1) * ?b}"
      using range_list_within [OF assms(1,2,3) i assms(4)] that by (simp add: ranges_of_def b)
    have sj: "set (range_list (ranges_of limit n ! j)) \<subseteq> {int j * ?b + 1..(int j + 1) * ?b}"
      using range_list_within [OF assms(1,2,3) j assms(4)] that by (simp add: ranges_of_def b)
    have "(int i + 1) * ?b \<le> int j * ?b"
      using that(1) b0 by (intro mult_right_mono) auto
    with si sj show ?thesis by fastforce
  qed
  show "\<forall>i<nat n. \<forall>j<nat n. i \<noteq> j \<longrightarrow>
           set (range_list (ranges_of limit n ! i)) \<inter> set (range_list (ranges_of limit n ! j)) = {}"
  proof (intro allI impI)
    fix i j assume "i < nat n" "j < nat n" "i \<noteq> j"
    then consider "i < j" | "j < i" by linarith
    then show "set (range_list (ranges_of limit n ! i)) \<inter> set (range_list (ranges_of limit n ! j)) = {}"
    proof cases
      case 1
      with \<open>j < nat n\<close> lt [of i j] show ?thesis by blast
    next
      case 2
      with \<open>i < nat n\<close> lt [of j i] show ?thesis by blast
    qed
  qed
  have "set (concat (map range_list (ranges_of limit n))) = set [1..limit]"
    using ranges_cover [OF assms] by simp
  then show "(\<Union>r \<in> set (ranges_of limit n). set (range_list r)) = {1..limit}"
    by simp
qed


text \<open>
  Claim C3: one range per worker index, by the block formulas, the non-empty ranges
  disjoint and covering \<open>[1, limit]\<close>. It holds while \<open>limit + numThreads - 1\<close>
  fits \<^verbatim>\<open>long long\<close>
  (\<open>plan_range_exact\<close>, \<open>ranges_of_partition\<close>). Beyond that the sum in \<^verbatim>\<open>ceil_div\<close>
  overflows: for the limit \<open>LLONG_MAX\<close> and two workers the block size is negative and
  both planned ranges are empty, so the ranges do not cover \<open>[1, limit]\<close>.
\<close>

theorem ranges_of_overflow:
  "ceil_div 9223372036854775807 2 = - 4611686018427387904
   \<and> ranges_of 9223372036854775807 2 = [\<lparr>start = 1, end' = 0\<rparr>, \<lparr>start = 1, end' = 0\<rparr>]
   \<and> concat (map range_list (ranges_of 9223372036854775807 2)) = []"
  by (simp add: ranges_of_def block_of_def ceil_div_def plan_range_def ll_def
      signed_divide_int_def upt_conv_Cons range_list_def)

subsection \<open>The pipeline\<close>

lemma run_workers_result:
  assumes rng: "\<forall>j<n. in_ll (start (ranges ! j)) \<and> in_ll (end' (ranges ! j)) \<and> end' (ranges ! j) < LLONG_MAX"
    and res: "\<forall>j<n. reserve_count (ranges ! j) = 0 \<or> reserve_ok (reserve_count (ranges ! j))"
    and dist: "\<forall>j<n. \<forall>k<n. j \<noteq> k \<longrightarrow> tempFiles ! j \<noteq> tempFiles ! k"
  shows "i \<le> n \<Longrightarrow> length locals = n \<Longrightarrow>
     \<exists>locals' fs'. run_workers reserve_ok can_write disk_room ranges tempFiles n i locals fs = Some (Returned (locals', fs'))
       \<and> length locals' = n
       \<and> (\<forall>j<i. locals' ! j = locals ! j)
       \<and> (\<forall>j. i \<le> j \<and> j < n \<longrightarrow> locals' ! j = filter is_prime (range_list (ranges ! j)))
       \<and> (\<forall>name. fs' name = fs name \<or>
             (\<exists>j. i \<le> j \<and> j < n \<and> name = tempFiles ! j \<and> can_write name))
       \<and> (\<forall>j. i \<le> j \<and> j < n \<and> can_write (tempFiles ! j) \<longrightarrow>
             fs' (tempFiles ! j) =
               Some (take (disk_room (tempFiles ! j))
                 (serialize (filter is_prime (range_list (ranges ! j))))))"
proof (induction "n - i" arbitrary: i locals fs rule: less_induct)
  case less
  show ?case
  proof (cases "i < n")
    case False
    with less.prems have "i = n" by simp
    then show ?thesis using less.prems by (subst run_workers.simps) auto
  next
    case True
    let ?P = "\<lambda>j. filter is_prime (range_list (ranges ! j))"
    let ?fs1 = "if can_write (tempFiles ! i)
      then fs(tempFiles ! i \<mapsto> take (disk_room (tempFiles ! i)) (serialize (?P i))) else fs"
    let ?l1 = "locals[i := ?P i]"
    have w: "workerTask reserve_ok can_write disk_room i (ranges ! i) (tempFiles ! i) fs =
        Some (Returned (?P i, ?fs1))"
      using rng res True by (intro workerTask_result) auto
    have "\<exists>locals' fs'. run_workers reserve_ok can_write disk_room ranges tempFiles n (i + 1) ?l1 ?fs1 = Some (Returned (locals', fs'))
       \<and> length locals' = n
       \<and> (\<forall>j<i + 1. locals' ! j = ?l1 ! j)
       \<and> (\<forall>j. i + 1 \<le> j \<and> j < n \<longrightarrow> locals' ! j = ?P j)
       \<and> (\<forall>name. fs' name = ?fs1 name \<or>
             (\<exists>j. i + 1 \<le> j \<and> j < n \<and> name = tempFiles ! j \<and> can_write name))
       \<and> (\<forall>j. i + 1 \<le> j \<and> j < n \<and> can_write (tempFiles ! j) \<longrightarrow>
             fs' (tempFiles ! j) = Some (take (disk_room (tempFiles ! j)) (serialize (?P j))))"
      using True less.prems by (intro less.hyps) auto
    then obtain locals' fs' where
      r: "run_workers reserve_ok can_write disk_room ranges tempFiles n (i + 1) ?l1 ?fs1 = Some (Returned (locals', fs'))"
      and len: "length locals' = n"
      and old: "\<forall>j<i + 1. locals' ! j = ?l1 ! j"
      and new: "\<forall>j. i + 1 \<le> j \<and> j < n \<longrightarrow> locals' ! j = ?P j"
      and oth: "\<forall>name. fs' name = ?fs1 name \<or>
             (\<exists>j. i + 1 \<le> j \<and> j < n \<and> name = tempFiles ! j \<and> can_write name)"
      and wr: "\<forall>j. i + 1 \<le> j \<and> j < n \<and> can_write (tempFiles ! j) \<longrightarrow>
             fs' (tempFiles ! j) = Some (take (disk_room (tempFiles ! j)) (serialize (?P j)))"
      by blast
    have run: "run_workers reserve_ok can_write disk_room ranges tempFiles n i locals fs = Some (Returned (locals', fs'))"
      using True w r by (subst run_workers.simps) simp
    have a: "\<forall>j<i. locals' ! j = locals ! j"
      using old by auto
    have "locals' ! i = ?P i"
      using old True less.prems(2) by auto
    with new have b: "\<forall>j. i \<le> j \<and> j < n \<longrightarrow> locals' ! j = ?P j"
      by (metis Suc_eq_plus1 Suc_leI le_neq_implies_less)
    have c: "\<forall>name. fs' name = fs name \<or>
             (\<exists>j. i \<le> j \<and> j < n \<and> name = tempFiles ! j \<and> can_write name)"
    proof
      fix name
      from oth have "fs' name = ?fs1 name \<or>
             (\<exists>j. i + 1 \<le> j \<and> j < n \<and> name = tempFiles ! j \<and> can_write name)" by blast
      then show "fs' name = fs name \<or>
             (\<exists>j. i \<le> j \<and> j < n \<and> name = tempFiles ! j \<and> can_write name)"
      proof
        assume e: "fs' name = ?fs1 name"
        show ?thesis
        proof (cases "can_write (tempFiles ! i) \<and> name = tempFiles ! i")
          case True
          with \<open>i < n\<close> show ?thesis by auto
        next
          case False
          with e have "fs' name = fs name" by auto
          then show ?thesis by simp
        qed
      next
        assume "\<exists>j. i + 1 \<le> j \<and> j < n \<and> name = tempFiles ! j \<and> can_write name"
        then obtain j where "i + 1 \<le> j \<and> j < n \<and> name = tempFiles ! j \<and> can_write name" ..
        then have "i \<le> j \<and> j < n \<and> name = tempFiles ! j \<and> can_write name" by auto
        then show ?thesis by blast
      qed
    qed
    have d: "\<forall>j. i \<le> j \<and> j < n \<and> can_write (tempFiles ! j) \<longrightarrow>
             fs' (tempFiles ! j) = Some (take (disk_room (tempFiles ! j)) (serialize (?P j)))"
    proof (intro allI impI)
      fix j assume j: "i \<le> j \<and> j < n \<and> can_write (tempFiles ! j)"
      show "fs' (tempFiles ! j) = Some (take (disk_room (tempFiles ! j)) (serialize (?P j)))"
      proof (cases "j = i")
        case False
        with j wr show ?thesis by auto
      next
        case True
        from oth have "fs' (tempFiles ! i) = ?fs1 (tempFiles ! i) \<or>
             (\<exists>k. i + 1 \<le> k \<and> k < n \<and> tempFiles ! i = tempFiles ! k \<and> can_write (tempFiles ! i))"
          by blast
        moreover have "\<not> (\<exists>k. i + 1 \<le> k \<and> k < n \<and> tempFiles ! i = tempFiles ! k)"
          using dist \<open>i < n\<close> by auto
        ultimately have "fs' (tempFiles ! i) = ?fs1 (tempFiles ! i)" by blast
        with j True show ?thesis by simp
      qed
    qed
    from run len a b c d show ?thesis by blast
  qed
qed

lemma put_nat_inj: "put_nat a = put_nat b \<Longrightarrow> a = b"
  by (metis put_nat_digits)

lemma tempFile_name_inj:
  assumes "int i < 4294967295" "int j < 4294967295" "tempFile_name i = tempFile_name j"
  shows "i = j"
proof -
  have "put_nat (nat (u32 (int i + 1))) = put_nat (nat (u32 (int j + 1)))"
    using assms(3) by (simp add: tempFile_name_def)
  then have "nat (u32 (int i + 1)) = nat (u32 (int j + 1))" by (rule put_nat_inj)
  moreover have "u32 (int i + 1) = int i + 1" "u32 (int j + 1) = int j + 1"
    using assms(1,2) by (simp_all add: u32_def)
  ultimately show ?thesis by simp
qed

lemma finalize_sorted_distinct: "sorted xs \<Longrightarrow> distinct xs \<Longrightarrow> finalize xs = xs"
  by (simp add: finalize_def sort_key_id_if_sorted remdups_adj_distinct)

lemma finalize_primes: "finalize (filter is_prime [1..limit]) = primes_upto limit"
proof -
  have "\<not> is_prime 1" by (simp add: is_prime_def)
  then have "filter is_prime [1..limit] = filter is_prime [2..limit]"
    by (cases "1 \<le> limit") (simp_all add: upto_rec1 [of 1 limit])
  moreover have "finalize (filter is_prime [1..limit]) = filter is_prime [1..limit]"
    by (intro finalize_sorted_distinct sorted_wrt_filter distinct_filter) simp_all
  ultimately show ?thesis by (simp add: primes_upto_def)
qed

lemma in_ll_range_list:
  "in_ll (start r) \<Longrightarrow> in_ll (end' r) \<Longrightarrow> x \<in> set (range_list r) \<Longrightarrow> in_ll x"
  by (auto simp: range_list_def in_ll_def)

lemma pipeline_primes:
  assumes "0 \<le> limit" "limit < LLONG_MAX" "1 \<le> numThreads" "numThreads \<le> UINT_MAX"
    and "limit + numThreads - 1 \<le> LLONG_MAX"
    and res: "\<forall>r \<in> set (ranges_of limit numThreads). reserve_count r = 0 \<or> reserve_ok (reserve_count r)"
    and env: "\<forall>i < nat numThreads.
       \<not> can_read (tempFile_name i)
       \<or> (can_write (tempFile_name i)
          \<and> length (serialize (filter is_prime (range_list (ranges_of limit numThreads ! i))))
              \<le> disk_room (tempFile_name i))
       \<or> (\<not> can_write (tempFile_name i) \<and> fs (tempFile_name i) = None)"
  shows "\<exists>fs'. pipeline limit numThreads reserve_ok can_write disk_room can_read fs =
     Some (Returned (primes_upto limit, fs'))"
proof -
  let ?n = "nat numThreads"
  let ?rs = "ranges_of limit numThreads"
  let ?tf = "tempFiles_of numThreads"
  let ?P = "\<lambda>j. filter is_prime (range_list (?rs ! j))"
  have nmax: "numThreads \<le> LLONG_MAX"
    using assms(4) by (simp add: UINT_MAX_def LLONG_MAX_def)
  have b: "block_of limit numThreads = (limit + numThreads - 1) div numThreads"
    using assms by (simp add: block_of_def ceil_div_exact)
  have rs: "\<And>j. j < ?n \<Longrightarrow> ?rs ! j = plan_range limit ((limit + numThreads - 1) div numThreads) j"
    by (simp add: ranges_of_def b)
  have tf: "\<And>j. j < ?n \<Longrightarrow> ?tf ! j = tempFile_name j"
    by (simp add: tempFiles_of_def)
  have len_rs: "length ?rs = ?n"
    by (simp add: ranges_of_def)
  have rng: "\<forall>j<?n. in_ll (start (?rs ! j)) \<and> in_ll (end' (?rs ! j)) \<and> end' (?rs ! j) < LLONG_MAX"
  proof (intro allI impI)
    fix j assume j: "j < ?n"
    then have "int j < numThreads" by simp
    from plan_range_bounds [OF assms(1,3,5) this nmax assms(2)] rs [OF j]
    show "in_ll (start (?rs ! j)) \<and> in_ll (end' (?rs ! j)) \<and> end' (?rs ! j) < LLONG_MAX"
      by simp
  qed
  have res': "\<forall>j<?n. reserve_count (?rs ! j) = 0 \<or> reserve_ok (reserve_count (?rs ! j))"
    using res len_rs by (metis nth_mem)
  have dist: "\<forall>j<?n. \<forall>k<?n. j \<noteq> k \<longrightarrow> ?tf ! j \<noteq> ?tf ! k"
  proof (intro allI impI)
    fix j k assume j: "j < ?n" and k: "k < ?n" and ne: "j \<noteq> k"
    have "int j < 4294967295" "int k < 4294967295"
      using j k assms(4) by (simp_all add: UINT_MAX_def)
    with ne tempFile_name_inj [of j k] tf [OF j] tf [OF k] show "?tf ! j \<noteq> ?tf ! k"
      by auto
  qed
  from run_workers_result [OF rng res' dist, of 0 "replicate ?n []" can_write disk_room fs]
  obtain locals' fs' where
    run: "run_workers reserve_ok can_write disk_room ?rs ?tf ?n 0 (replicate ?n []) fs =
        Some (Returned (locals', fs'))"
    and len: "length locals' = ?n"
    and new: "\<forall>j. 0 \<le> j \<and> j < ?n \<longrightarrow> locals' ! j = ?P j"
    and oth: "\<forall>name. fs' name = fs name \<or>
             (\<exists>j. 0 \<le> j \<and> j < ?n \<and> name = ?tf ! j \<and> can_write name)"
    and wr: "\<forall>j. 0 \<le> j \<and> j < ?n \<and> can_write (?tf ! j) \<longrightarrow>
             fs' (?tf ! j) = Some (take (disk_room (?tf ! j)) (serialize (?P j)))"
    by auto
  have src: "\<forall>i<?n.
      (open_in can_read fs' (?tf ! i) = None \<or> open_in can_read fs' (?tf ! i) = Some (serialize (locals' ! i)))
      \<and> (\<forall>x \<in> set (locals' ! i). in_ll x)"
  proof (intro allI impI conjI)
    fix i assume i: "i < ?n"
    from env i tf [OF i] have e: "\<not> can_read (?tf ! i)
       \<or> (can_write (?tf ! i) \<and> length (serialize (?P i)) \<le> disk_room (?tf ! i))
       \<or> (\<not> can_write (?tf ! i) \<and> fs (?tf ! i) = None)"
      by simp
    show "open_in can_read fs' (?tf ! i) = None \<or> open_in can_read fs' (?tf ! i) = Some (serialize (locals' ! i))"
    proof (cases "can_read (?tf ! i)")
      case False
      then show ?thesis by (simp add: open_in_def)
    next
      case True
      show ?thesis
      proof (cases "can_write (?tf ! i)")
        case cw: True
        with e True have "length (serialize (?P i)) \<le> disk_room (?tf ! i)" by blast
        then have "take (disk_room (?tf ! i)) (serialize (?P i)) = serialize (?P i)" by simp
        with wr i cw new show ?thesis by (simp add: open_in_def)
      next
        case cw: False
        with oth have "fs' (?tf ! i) = fs (?tf ! i)" by blast
        moreover from e True cw have "fs (?tf ! i) = None" by blast
        ultimately show ?thesis by (simp add: open_in_def)
      qed
    qed
    show "\<forall>x \<in> set (locals' ! i). in_ll x"
      using new i rng by (auto intro: in_ll_range_list)
  qed
  have "merge_loop (open_in can_read fs') ?tf locals' ?n 0 [] = concat (map (\<lambda>i. locals' ! i) [0..<?n])"
    using src by (rule merge_loop_written)
  also have "map (\<lambda>i. locals' ! i) [0..<?n] = map ?P [0..<?n]"
    using new by (intro map_cong [OF refl]) auto
  also have "concat (map ?P [0..<?n]) = filter is_prime (concat (map (\<lambda>j. range_list (?rs ! j)) [0..<?n]))"
    by (simp add: filter_concat comp_def)
  also have "map (\<lambda>j. range_list (?rs ! j)) [0..<?n] = map range_list ?rs"
    by (intro nth_equalityI) (simp_all add: ranges_of_def)
  also have "concat (map range_list ?rs) = [1..limit]"
    using assms(1,3,5) nmax by (rule ranges_cover)
  finally have "finalize (merge_loop (open_in can_read fs') ?tf locals' ?n 0 []) = primes_upto limit"
    by (simp add: finalize_primes)
  with run show ?thesis
    by (simp add: pipeline_def)
qed

lemma main_primes:
  assumes "in_uint hw0" "parseLimit s = Some limit" "limit \<le> LLONG_MAX - UINT_MAX"
    and res: "\<forall>r \<in> set (ranges_of limit (numThreads_of hw0 limit)).
       reserve_count r = 0 \<or> reserve_ok (reserve_count r)"
    and env: "\<forall>i < nat (numThreads_of hw0 limit).
       \<not> can_read (tempFile_name i)
       \<or> (can_write (tempFile_name i)
          \<and> length (serialize (filter is_prime
                (range_list (ranges_of limit (numThreads_of hw0 limit) ! i))))
              \<le> disk_room (tempFile_name i))
       \<or> (\<not> can_write (tempFile_name i) \<and> fs (tempFile_name i) = None)"
  shows "\<exists>fs'. main [prog, s] hw0 reserve_ok can_write disk_room can_read fs =
     Some (Returned (Inr (primes_upto limit), fs'))"
proof -
  have l0: "0 \<le> limit"
    using assms(2) by (auto simp: parseLimit_eq split: if_splits)
  have n: "1 \<le> numThreads_of hw0 limit" "numThreads_of hw0 limit \<le> UINT_MAX"
    using numThreads_of_bounds [OF assms(1)] by simp_all
  have "limit < LLONG_MAX"
    using assms(3) by (simp add: LLONG_MAX_def UINT_MAX_def)
  moreover have "limit + numThreads_of hw0 limit - 1 \<le> LLONG_MAX"
    using assms(3) n(2) by simp
  ultimately obtain fs' where
    "pipeline limit (numThreads_of hw0 limit) reserve_ok can_write disk_room can_read fs =
       Some (Returned (primes_upto limit, fs'))"
    using pipeline_primes [OF l0 _ n(1) n(2) _ res env] by blast
  with assms(2) show ?thesis by (simp add: main_def)
qed

lemma reserve_count_exact:
  assumes "1 \<le> start r" "start r \<le> end' r" "end' r \<le> LLONG_MAX"
  shows "reserve_count r = nat (end' r - start r + 1)"
proof -
  have a: "in_ll (end' r - start r)" and b: "in_ll (end' r - start r + 1)"
    using assms by (simp_all add: in_ll_def LLONG_MIN_def LLONG_MAX_def)
  have "0 \<le> end' r - start r + 1" "end' r - start r + 1 < 18446744073709551616"
    using assms by (simp_all add: LLONG_MAX_def)
  then have "u64 (end' r - start r + 1) = end' r - start r + 1"
    by (simp add: u64_def)
  with assms(2) a b show ?thesis
    by (simp add: reserve_count_def ll_id)
qed

lemma primes_upto_set: "set (primes_upto limit) = {p. is_prime p \<and> p \<le> limit}"
  by (auto simp: primes_upto_def is_prime_def)

lemma primes_upto_ascending: "sorted_wrt (<) (primes_upto limit)"
  unfolding primes_upto_def by (intro sorted_wrt_filter) (simp add: strict_sorted_iff)

text \<open>
  Claim C1, amended. Take a limit \<open>L\<close> with \<open>0 \<le> L < LLONG_MAX\<close> and a worker count
  \<open>n\<close> with \<open>1 \<le> n \<le> UINT_MAX\<close> and \<open>L + n - 1 \<le> LLONG_MAX\<close>. Let every worker's
  \<^verbatim>\<open>reserve\<close> succeed (a planned range of \<open>k > 0\<close> numbers reserves \<open>k\<close> elements,
  \<open>reserve_count_exact\<close>), and let every worker file that can be read at the merge be
  one that its worker opened and that took the complete text: no file that the worker
  could not open exists beforehand, and no file that opened was cut short. Then the
  pipeline returns, and the final sequence is the exact ascending list of the primes in
  \<open>[2, L]\<close>: it is strictly ascending and its elements are the primes up to \<open>L\<close>.
  The result does not depend on the worker count.
\<close>

theorem pipeline_correct:
  "0 \<le> limit \<Longrightarrow> limit < LLONG_MAX \<Longrightarrow> 1 \<le> numThreads \<Longrightarrow> numThreads \<le> UINT_MAX \<Longrightarrow>
   limit + numThreads - 1 \<le> LLONG_MAX \<Longrightarrow>
   \<forall>r \<in> set (ranges_of limit numThreads). reserve_count r = 0 \<or> reserve_ok (reserve_count r) \<Longrightarrow>
   \<forall>i < nat numThreads.
     \<not> can_read (tempFile_name i)
     \<or> (can_write (tempFile_name i)
        \<and> length (serialize (filter is_prime (range_list (ranges_of limit numThreads ! i))))
            \<le> disk_room (tempFile_name i))
     \<or> (\<not> can_write (tempFile_name i) \<and> fs (tempFile_name i) = None) \<Longrightarrow>
     (\<exists>fs'. pipeline limit numThreads reserve_ok can_write disk_room can_read fs =
        Some (Returned (primes_upto limit, fs')))
   \<and> sorted_wrt (<) (primes_upto limit)
   \<and> set (primes_upto limit) = {p. is_prime p \<and> p \<le> limit}"
  using pipeline_primes [of limit numThreads reserve_ok can_read can_write disk_room fs]
    primes_upto_ascending [of limit] primes_upto_set [of limit]
  by blast

lemmas program_eval = main_def pipeline_def parseLimit_def isdigit_def extract_ll_def open_stream_def
  isspace_def accumulate_def digit_val_def LLONG_MAX_def LLONG_MIN_def numThreads_of_def hw_of_def
  u32_def u64_def ranges_of_def block_of_def ceil_div_def plan_range_def ll_def signed_divide_int_def
  signed_modulo_int_def tempFiles_of_def tempFile_name_def digit_char_def workerTask_def
  reserve_count_def worker_loop.simps isPrime_def isPrime_loop.simps serialize_def put_ll_def
  open_in_def finalize_def put_nat.simps read_loop.simps write_loop.simps run_workers.simps
  merge_loop.simps

theorem pipeline_correct_witness:
  "primes_upto 10 = [2, 3, 5, 7]
   \<and> map_option (map_outcome fst)
        (pipeline 10 1 (\<lambda>n. True) (\<lambda>f. True) (\<lambda>f. 100) (\<lambda>f. True) Map.empty)
      = Some (Returned [2, 3, 5, 7])
   \<and> map_option (map_outcome fst)
        (pipeline 10 3 (\<lambda>n. n \<le> 4) (\<lambda>f. False) (\<lambda>f. 0) (\<lambda>f. True) Map.empty)
      = Some (Returned [2, 3, 5, 7])
   \<and> map_option (map_outcome fst)
        (pipeline 10 15 (\<lambda>n. n \<le> 1) (\<lambda>f. True) (\<lambda>f. 0) (\<lambda>f. False) Map.empty)
      = Some (Returned [2, 3, 5, 7])"
proof -
  have p: "primes_upto 10 = [2, 3, 5, 7]"
    by (simp add: primes_upto_def is_prime_def)
  have b: "(0::int) \<le> 10" "(10::int) < LLONG_MAX" "(3::int) \<le> UINT_MAX" "(1::int) \<le> UINT_MAX"
    "(15::int) \<le> UINT_MAX" "(10::int) + 1 - 1 \<le> LLONG_MAX" "(10::int) + 3 - 1 \<le> LLONG_MAX"
    "(10::int) + 15 - 1 \<le> LLONG_MAX" "(1::int) \<le> 1" "(1::int) \<le> 3" "(1::int) \<le> 15"
    by (simp_all add: LLONG_MAX_def UINT_MAX_def)
  have r1: "ranges_of 10 1 = [\<lparr>start = 1, end' = 10\<rparr>]"
    by (simp add: ranges_of_def block_of_def ceil_div_def plan_range_def ll_def
        signed_divide_int_def)
  have f1: "filter is_prime (range_list \<lparr>start = 1, end' = 10\<rparr>) = [2, 3, 5, 7]"
    by (simp add: range_list_def is_prime_def upto_rec1 [of 1 10])
  have s1: "serialize [2, 3, 5, 7] = ''2 3 5 7'' @ [CHR 0x0A]"
    by (simp add: serialize_eq put_ll_def put_nat.simps digit_char_def)
  have g1: "\<forall>r \<in> set (ranges_of 10 1). reserve_count r = 0 \<or> (\<lambda>n. True) (reserve_count r)"
    by simp
  have h1: "\<forall>i < nat 1. \<not> (\<lambda>f. True) (tempFile_name i)
       \<or> ((\<lambda>f. True) (tempFile_name i)
          \<and> length (serialize (filter is_prime (range_list (ranges_of 10 1 ! i))))
              \<le> (\<lambda>f. 100) (tempFile_name i))
       \<or> (\<not> (\<lambda>f. True) (tempFile_name i) \<and> Map.empty (tempFile_name i) = None)"
    by (simp add: r1 f1 s1)
  have "\<exists>fs'. pipeline 10 1 (\<lambda>n. True) (\<lambda>f. True) (\<lambda>f. 100) (\<lambda>f. True) Map.empty =
      Some (Returned (primes_upto 10, fs'))"
    using pipeline_correct [OF b(1) b(2) b(9) b(4) b(6) g1 h1] by (elim conjE)
  then have a1: "map_option (map_outcome fst)
        (pipeline 10 1 (\<lambda>n. True) (\<lambda>f. True) (\<lambda>f. 100) (\<lambda>f. True) Map.empty)
      = Some (Returned (primes_upto 10))"
    by auto
  have r3: "ranges_of 10 3 =
      [\<lparr>start = 1, end' = 4\<rparr>, \<lparr>start = 5, end' = 8\<rparr>, \<lparr>start = 9, end' = 10\<rparr>]"
    by (simp add: ranges_of_def block_of_def ceil_div_def plan_range_def ll_def
        signed_divide_int_def upt_conv_Cons)
  have g3: "\<forall>r \<in> set (ranges_of 10 3). reserve_count r = 0 \<or> (\<lambda>n. n \<le> 4) (reserve_count r)"
    by (simp add: r3 reserve_count_def ll_def u64_def)
  have h3: "\<forall>i < nat 3. \<not> (\<lambda>f. True) (tempFile_name i)
       \<or> ((\<lambda>f. False) (tempFile_name i)
          \<and> length (serialize (filter is_prime (range_list (ranges_of 10 3 ! i))))
              \<le> (\<lambda>f. 0) (tempFile_name i))
       \<or> (\<not> (\<lambda>f. False) (tempFile_name i) \<and> Map.empty (tempFile_name i) = None)"
    by simp
  have "\<exists>fs'. pipeline 10 3 (\<lambda>n. n \<le> 4) (\<lambda>f. False) (\<lambda>f. 0) (\<lambda>f. True) Map.empty =
      Some (Returned (primes_upto 10, fs'))"
    using pipeline_correct [OF b(1) b(2) b(10) b(3) b(7) g3 h3] by (elim conjE)
  then have a3: "map_option (map_outcome fst)
        (pipeline 10 3 (\<lambda>n. n \<le> 4) (\<lambda>f. False) (\<lambda>f. 0) (\<lambda>f. True) Map.empty)
      = Some (Returned (primes_upto 10))"
    by auto
  have r15: "ranges_of 10 15 =
      [\<lparr>start = 1, end' = 1\<rparr>, \<lparr>start = 2, end' = 2\<rparr>, \<lparr>start = 3, end' = 3\<rparr>,
       \<lparr>start = 4, end' = 4\<rparr>, \<lparr>start = 5, end' = 5\<rparr>, \<lparr>start = 6, end' = 6\<rparr>,
       \<lparr>start = 7, end' = 7\<rparr>, \<lparr>start = 8, end' = 8\<rparr>, \<lparr>start = 9, end' = 9\<rparr>,
       \<lparr>start = 10, end' = 10\<rparr>, \<lparr>start = 1, end' = 0\<rparr>, \<lparr>start = 1, end' = 0\<rparr>,
       \<lparr>start = 1, end' = 0\<rparr>, \<lparr>start = 1, end' = 0\<rparr>, \<lparr>start = 1, end' = 0\<rparr>]"
    by (simp add: ranges_of_def block_of_def ceil_div_def plan_range_def ll_def
        signed_divide_int_def upt_conv_Cons)
  have g15: "\<forall>r \<in> set (ranges_of 10 15). reserve_count r = 0 \<or> (\<lambda>n. n \<le> 1) (reserve_count r)"
    by (simp add: r15 reserve_count_def ll_def u64_def)
  have h15: "\<forall>i < nat 15. \<not> (\<lambda>f. False) (tempFile_name i)
       \<or> ((\<lambda>f. True) (tempFile_name i)
          \<and> length (serialize (filter is_prime (range_list (ranges_of 10 15 ! i))))
              \<le> (\<lambda>f. 0) (tempFile_name i))
       \<or> (\<not> (\<lambda>f. True) (tempFile_name i) \<and> Map.empty (tempFile_name i) = None)"
    by simp
  have "\<exists>fs'. pipeline 10 15 (\<lambda>n. n \<le> 1) (\<lambda>f. True) (\<lambda>f. 0) (\<lambda>f. False) Map.empty =
      Some (Returned (primes_upto 10, fs'))"
    using pipeline_correct [OF b(1) b(2) b(11) b(5) b(8) g15 h15] by (elim conjE)
  then have a15: "map_option (map_outcome fst)
        (pipeline 10 15 (\<lambda>n. n \<le> 1) (\<lambda>f. True) (\<lambda>f. 0) (\<lambda>f. False) Map.empty)
      = Some (Returned (primes_upto 10))"
    by auto
  from p a1 a3 a15 show ?thesis by simp
qed

text \<open>
  The claim C1 as stated fails in four ways. A file of an earlier run that the worker
  cannot overwrite is read in place of the worker's result: for the limit 10 the output
  is \<open>[4]\<close>. For the limit \<open>LLONG_MAX\<close> and two workers no range is planned and the
  output is empty. On a full disk the worker's file opens and stays empty, the merge reads
  it and the output for the limit 10 is empty. When \<^verbatim>\<open>reserve\<close> throws, the process
  ends without output.
\<close>

theorem pipeline_counterexample:
  "map_option (map_outcome fst)
      (main [''prime_numbers'', ''10''] 1 (\<lambda>n. True) (\<lambda>f. False) (\<lambda>f. 0) (\<lambda>f. True)
         [''primes_thread_1.txt'' \<mapsto> ''4''])
     = Some (Returned (Inr [4]))
   \<and> map_option (map_outcome fst)
      (main [''prime_numbers'', ''9223372036854775807''] 2 (\<lambda>n. True) (\<lambda>f. True) (\<lambda>f. 100)
         (\<lambda>f. True) Map.empty)
     = Some (Returned (Inr []))
   \<and> map_option (map_outcome fst)
      (main [''prime_numbers'', ''10''] 1 (\<lambda>n. True) (\<lambda>f. True) (\<lambda>f. 0) (\<lambda>f. True) Map.empty)
     = Some (Returned (Inr []))
   \<and> main [''prime_numbers'', ''10''] 1 (\<lambda>n. False) (\<lambda>f. True) (\<lambda>f. 100) (\<lambda>f. True) Map.empty
     = Some Terminated
   \<and> primes_upto 10 = [2, 3, 5, 7] \<and> is_prime 2"
  by (simp add: program_eval upt_conv_Cons is_prime_def primes_upto_def)

end
